theory Spec2Isabelle
  imports Complex_Main "HOL-Library.Sublist" "HOL-Library.Log_Nat"
begin

section \<open>Strings\<close>

text \<open>
  A JavaScript string is modelled as a \<open>string\<close> (a list of \<open>char\<close>): one \<open>char\<close> stands
  for one code unit, so the model covers the texts whose code units are below 256.
\<close>

abbreviation LF :: char where "LF \<equiv> CHR 0x0A"
abbreviation CR :: char where "CR \<equiv> CHR 0x0D"
abbreviation TAB :: char where "TAB \<equiv> CHR 0x09"
abbreviation DQ :: char where "DQ \<equiv> CHR 0x22"

text \<open>The white space that \<open>String.prototype.trim\<close> removes, among the code units below 256.\<close>

definition is_space :: "char \<Rightarrow> bool" where
  "is_space c \<longleftrightarrow> c \<in> {CHR 0x09, CHR 0x0A, CHR 0x0B, CHR 0x0C, CHR 0x0D, CHR 0x20, CHR 0xA0}"

definition trim :: "string \<Rightarrow> string" where
  "trim s = rev (dropWhile is_space (rev (dropWhile is_space s)))"

text \<open>\<open>s.split(sep)\<close> for a one-character separator: never the empty list.\<close>

fun split_on :: "char \<Rightarrow> string \<Rightarrow> string list" where
  "split_on sep [] = [[]]"
| "split_on sep (c # cs) =
     (if c = sep then [] # split_on sep cs
      else (case split_on sep cs of
              [] \<Rightarrow> [[c]]
            | l # ls \<Rightarrow> (c # l) # ls))"

text \<open>\<open>parts.join(sep)\<close>.\<close>

fun join_with :: "string \<Rightarrow> string list \<Rightarrow> string" where
  "join_with sep [] = []"
| "join_with sep [x] = x"
| "join_with sep (x # y # ys) = x @ sep @ join_with sep (y # ys)"

text \<open>\<open>xs.slice(start)\<close>: a negative start counts from the end, and no start is out of range.\<close>

definition slice_from :: "int \<Rightarrow> 'a list \<Rightarrow> 'a list" where
  "slice_from start xs =
     (if start < 0 then drop (nat (int (length xs) + start)) xs else drop (nat start) xs)"

text \<open>Decimal digits of a number, as a template literal prints a non-negative integer.\<close>

definition digit :: "nat \<Rightarrow> char" where
  "digit n = ''0123456789'' ! n"

fun string_of_nat :: "nat \<Rightarrow> string" where
  "string_of_nat n =
     (if n < 10 then [digit n]
      else string_of_nat (n div 10) @ [digit (n mod 10)])"

section \<open>Delimiter detection (src/utils/delimiter.ts)\<close>

text \<open>
  \<open>countDelimiterOccurrences\<close>: the loop over the indices of the line, here over the rest of
  the line from the current index. A quote followed by a quote skips both; any other quote
  flips \<open>inQuotes\<close>; a character equal to the delimiter string counts outside quotes.
\<close>

fun count_loop :: "string \<Rightarrow> nat \<Rightarrow> bool \<Rightarrow> string \<Rightarrow> nat" where
  "count_loop delimiter count inQuotes [] = count"
| "count_loop delimiter count inQuotes (c # cs) =
     (if c = DQ then
        (case cs of
           [] \<Rightarrow> count_loop delimiter count (\<not> inQuotes) cs
         | c' # cs' \<Rightarrow>
             if c' = DQ then count_loop delimiter count inQuotes cs'
             else count_loop delimiter count (\<not> inQuotes) cs)
      else if [c] = delimiter \<and> \<not> inQuotes then count_loop delimiter (count + 1) inQuotes cs
      else count_loop delimiter count inQuotes cs)"

definition countDelimiterOccurrences :: "string \<Rightarrow> string \<Rightarrow> nat" where
  "countDelimiterOccurrences line delimiter = count_loop delimiter 0 False line"

definition delimiters :: "string list" where
  "delimiters = ['','', '';'', [TAB], ''|'']"

text \<open>The lines analysed: the first five lines of the sample, without the blank ones.\<close>

definition sample_lines :: "string \<Rightarrow> string list" where
  "sample_lines sample = filter (\<lambda>line. trim line \<noteq> []) (take 5 (split_on LF sample))"

text \<open>
  The score one candidate gets from its counts on the lines; \<open>None\<close> when the source sets no
  score (no line).
\<close>

definition score_of_counts :: "nat list \<Rightarrow> nat option" where
  "score_of_counts counts =
     (if length counts > 1 then
        (let first = counts ! 0;
             allSame = list_all (\<lambda>c. c = first) counts;
             hasDelimiters = (first > 0)
         in if allSame \<and> hasDelimiters then Some (first * 100)
            else if hasDelimiters then Some (first * 10)
            else Some 0)
      else if length counts = 1 then Some (counts ! 0)
      else None)"

text \<open>
  The score in the words of the specification, for two lines or more: a count \<open>C\<close> that
  every line has and that is not zero scores \<open>C \<times> 100\<close>; otherwise the score is the count of
  the first line \<open>\<times> 10\<close>.
\<close>

definition spec_score :: "nat list \<Rightarrow> nat" where
  "spec_score counts =
     (let C = counts ! 0
      in if C > 0 \<and> list_all (\<lambda>c. c = C) counts then C * 100 else C * 10)"

definition counts_of :: "string list \<Rightarrow> string \<Rightarrow> nat list" where
  "counts_of lines delimiter = map (\<lambda>line. countDelimiterOccurrences line delimiter) lines"

text \<open>The \<open>scores\<close> map, as the list of its entries in insertion order.\<close>

definition scores_of :: "string list \<Rightarrow> (string \<times> nat) list" where
  "scores_of lines =
     concat (map (\<lambda>delimiter.
                    case score_of_counts (counts_of lines delimiter) of
                      None \<Rightarrow> []
                    | Some score \<Rightarrow> [(delimiter, score)])
                 delimiters)"

definition best_step :: "string \<times> nat \<Rightarrow> string \<times> nat \<Rightarrow> string \<times> nat" where
  "best_step entry best = (if snd entry > snd best then entry else best)"

definition best_of :: "(string \<times> nat) list \<Rightarrow> string" where
  "best_of scores = fst (fold best_step scores ('','', 0))"

definition detectDelimiter :: "string \<Rightarrow> string \<Rightarrow> string" where
  "detectDelimiter sample configuredDelimiter =
     (if configuredDelimiter \<noteq> ''auto'' then
        (if configuredDelimiter = [CHR 0x5C, CHR ''t''] then [TAB] else configuredDelimiter)
      else
        (let lines = sample_lines sample
         in if length lines = 0 then '','' else best_of (scores_of lines)))"

fun getDelimiterName :: "string \<Rightarrow> string" where
  "getDelimiterName delimiter =
     (if delimiter = '','' then ''Comma''
      else if delimiter = '';'' then ''Semicolon''
      else if delimiter = [TAB] then ''Tab''
      else if delimiter = ''|'' then ''Pipe''
      else ''Custom'')"

section \<open>JavaScript numbers\<close>

text \<open>
  A JavaScript number is an IEEE-754 double, and \<open>/\<close> and \<open>*\<close> round their exact result to
  the nearest double, ties to the even mantissa. The doubles met here are positive and far
  from the ends of the exponent range, so a double is written as a fraction
  (numerator, denominator) of naturals, and the exponent range is not modelled.
  Lengths and counts are integers below \<open>2 ^ 53\<close>, which are doubles themselves.
\<close>

type_synonym double = "nat \<times> nat"

text \<open>The integer nearest to \<open>P / Q\<close>, the even one of two equally near.\<close>

definition round_half_even :: "nat \<Rightarrow> nat \<Rightarrow> nat" where
  "round_half_even P Q =
     (let m = P div Q; r = P mod Q
      in if 2 * r > Q \<or> (2 * r = Q \<and> odd m) then m + 1 else m)"

text \<open>\<open>p / q\<close> scaled by \<open>2 ^ - e\<close>, as numerator and denominator.\<close>

definition scaled_num :: "nat \<Rightarrow> int \<Rightarrow> nat" where
  "scaled_num p e = (if e \<ge> 0 then p else p * 2 ^ nat (- e))"

definition scaled_den :: "nat \<Rightarrow> int \<Rightarrow> nat" where
  "scaled_den q e = (if e \<ge> 0 then q * 2 ^ nat e else q)"

text \<open>
  The exponent \<open>e\<close> of the unit in the last place of \<open>p / q\<close>: the one with
  \<open>2 ^ 52 \<le> p / q / 2 ^ e < 2 ^ 53\<close>.
\<close>

definition ulp_exponent :: "nat \<Rightarrow> nat \<Rightarrow> int" where
  "ulp_exponent p q =
     (let e0 = int (floorlog 2 p) - int (floorlog 2 q) - 53
      in if scaled_num p e0 div scaled_den q e0 \<ge> 2 ^ 53 then e0 + 1 else e0)"

text \<open>
  The double nearest to \<open>p / q\<close>: a 53-bit mantissa times \<open>2 ^ e\<close>. Zero stands for a
  quotient by zero, which no call below makes.
\<close>

definition round_double :: "nat \<Rightarrow> nat \<Rightarrow> double" where
  "round_double p q =
     (if p = 0 \<or> q = 0 then (0, 1)
      else
        (let e = ulp_exponent p q;
             m = round_half_even (scaled_num p e) (scaled_den q e)
         in if e \<ge> 0 then (m * 2 ^ nat e, 1) else (m, 2 ^ nat (- e))))"

text \<open>\<open>a / b\<close> on two integers.\<close>

definition double_div :: "nat \<Rightarrow> nat \<Rightarrow> double" where
  "double_div a b = round_double a b"

text \<open>\<open>x * k\<close> for a double \<open>x\<close> and an integer \<open>k\<close>.\<close>

definition double_mul :: "double \<Rightarrow> nat \<Rightarrow> double" where
  "double_mul x k = round_double (fst x * k) (snd x)"

text \<open>\<open>Math.floor(x)\<close>.\<close>

definition double_floor :: "double \<Rightarrow> nat" where
  "double_floor x = fst x div snd x"

text \<open>\<open>k > x\<close> for an integer \<open>k\<close> and a double \<open>x\<close>.\<close>

definition nat_greater_double :: "nat \<Rightarrow> double \<Rightarrow> bool" where
  "nat_greater_double k x \<longleftrightarrow> k * snd x > fst x"

text \<open>The literal \<open>0.1\<close>: the double nearest to one tenth.\<close>

definition one_tenth :: double where
  "one_tenth = round_double 1 10"

text \<open>
  \<open>x.toFixed(2)\<close> for \<open>x = bytes / 1024 / 1024\<close>: both divisions are exact, and the nearest
  number of hundredths is taken, the larger of two equally near.
\<close>

definition pad2 :: "nat \<Rightarrow> string" where
  "pad2 n = (if n < 10 then ''0'' @ string_of_nat n else string_of_nat n)"

definition megabytes_fixed2 :: "nat \<Rightarrow> string" where
  "megabytes_fixed2 bytes =
     (let n = (bytes * 100 * 2 + 1048576) div (2 * 1048576)
      in string_of_nat (n div 100) @ ''.'' @ pad2 (n mod 100))"


section \<open>Parsing (src/utils/csvParser.ts)\<close>

record ParseError =
  err_type :: string
  err_code :: string
  err_message :: string
  err_row :: "nat option"

record ParseResult =
  data :: "string list list"
  headers :: "string list"
  totalRows :: nat
  errors :: "ParseError list"

text \<open>
  The optional fields of \<open>ParseOptions\<close>; \<open>None\<close> is a field left out. Numbers that count
  rows are integers (\<open>int\<close>, or \<open>nat\<close> where the source cannot have a negative one).
\<close>

record ParseOptions =
  opt_delimiter :: "string option"
  opt_maxRows :: "int option"
  opt_skipEmptyLines :: "bool option"

subsection \<open>The record splitter\<close>

text \<open>
  \<open>parseCSV\<close> hands the text to \<open>Papa.parse\<close> of the papaparse package, which is not among
  the source files. Its splitter is modelled from section 4.2 of the specification: a field
  may be wrapped in double quotes; inside a quoted field the delimiter and the line break
  are literal and a doubled quote is one literal quote; records are separated by line
  breaks outside quoted fields; blank records are skipped and produce no record; with a
  limit, splitting stops after that many records; malformed quoting is recorded with the
  index of its record and splitting goes on.

  Where section 4.2 is silent the model follows the documented options of the package.
  \<open>preview\<close> limits the number of records only when it is greater than 0; 0, its default, is
  no limit, and it is the value that the guard \<open>maxRows > 0 ? maxRows + 1 : 0\<close> of \<open>parseCSV\<close>
  selects. The setting \<open>greedy\<close> of \<open>skipEmptyLines\<close> calls a record blank when its fields,
  joined, are white space only. A quote opens a quoted field only at the start of a field.
  The line break is the line feed. A missing, empty or unusable delimiter (quote, line
  feed, carriage return) is replaced by the comma, the default of the package; its
  guessing of an absent delimiter is not modelled.
\<close>

text \<open>Modelled from the spec: the kinds of malformed quoting \<open>Papa.parse\<close> records.\<close>

datatype anomaly = MissingQuotes | InvalidQuotes

text \<open>Modelled from the spec: the states of the splitter of \<open>Papa.parse\<close>.\<close>

datatype scan_state = FieldStart | InField | InQuoted | QuoteSeen

text \<open>
  Modelled from the spec: the splitter of \<open>Papa.parse\<close>, character by character.
  \<open>scan dl skip st field row found rest\<close>: \<open>dl\<close> the delimiter, \<open>skip\<close> the characters of a
  delimiter just matched that are still to pass, \<open>st\<close> the state, \<open>field\<close> and \<open>row\<close> the
  field and record under construction, \<open>found\<close> the anomalies of this record. The result
  is every record with its anomalies, blank ones included.
\<close>

fun scan ::
  "string \<Rightarrow> nat \<Rightarrow> scan_state \<Rightarrow> string \<Rightarrow> string list \<Rightarrow> anomaly list \<Rightarrow> string
     \<Rightarrow> (string list \<times> anomaly list) list" where
  "scan dl skip st field row found [] =
     [(row @ [field], if st = InQuoted then found @ [MissingQuotes] else found)]"
| "scan dl (Suc skip) st field row found (c # cs) = scan dl skip st field row found cs"
| "scan dl 0 InQuoted field row found (c # cs) =
     (if c = DQ then scan dl 0 QuoteSeen field row found cs
      else scan dl 0 InQuoted (field @ [c]) row found cs)"
| "scan dl 0 QuoteSeen field row found (c # cs) =
     (if c = DQ then scan dl 0 InQuoted (field @ [DQ]) row found cs
      else if prefix dl (c # cs) then
        scan dl (length dl - 1) FieldStart [] (row @ [field]) found cs
      else if c = LF then (row @ [field], found) # scan dl 0 FieldStart [] [] [] cs
      else scan dl 0 InQuoted (field @ [DQ, c]) row (found @ [InvalidQuotes]) cs)"
| "scan dl 0 FieldStart field row found (c # cs) =
     (if c = DQ then scan dl 0 InQuoted [] row found cs
      else if prefix dl (c # cs) then
        scan dl (length dl - 1) FieldStart [] (row @ [field]) found cs
      else if c = LF then (row @ [field], found) # scan dl 0 FieldStart [] [] [] cs
      else scan dl 0 InField (field @ [c]) row found cs)"
| "scan dl 0 InField field row found (c # cs) =
     (if prefix dl (c # cs) then
        scan dl (length dl - 1) FieldStart [] (row @ [field]) found cs
      else if c = LF then (row @ [field], found) # scan dl 0 FieldStart [] [] [] cs
      else scan dl 0 InField (field @ [c]) row found cs)"

text \<open>Modelled from the spec: the delimiter \<open>Papa.parse\<close> splits at.\<close>

definition usable_delimiter :: "string option \<Rightarrow> string" where
  "usable_delimiter d =
     (case d of
        None \<Rightarrow> '',''
      | Some dl \<Rightarrow> if dl = [] \<or> dl = [DQ] \<or> dl = [LF] \<or> dl = [CR] then '','' else dl)"

text \<open>Modelled from the spec: the \<open>greedy\<close> test of \<open>Papa.parse\<close> for a blank record.\<close>

definition blank_record :: "string list \<Rightarrow> bool" where
  "blank_record flds \<longleftrightarrow> trim (concat flds) = []"

text \<open>Modelled from the spec: the error entry \<open>Papa.parse\<close> makes of an anomaly.\<close>

definition anomaly_error :: "nat \<Rightarrow> anomaly \<Rightarrow> ParseError" where
  "anomaly_error i a =
     (case a of
        MissingQuotes \<Rightarrow>
          \<lparr>err_type = ''Quotes'', err_code = ''MissingQuotes'',
           err_message = ''Quoted field unterminated'', err_row = Some i\<rparr>
      | InvalidQuotes \<Rightarrow>
          \<lparr>err_type = ''Quotes'', err_code = ''InvalidQuotes'',
           err_message = ''Trailing quote on quoted field is malformed'', err_row = Some i\<rparr>)"

text \<open>The options \<open>parseCSV\<close> sets (the others keep one value), and the result it reads.\<close>

record PapaConfig =
  cfg_delimiter :: "string option"
  cfg_skipEmptyLines :: bool
  cfg_preview :: nat

record PapaResult =
  papa_data :: "string list list"
  papa_errors :: "ParseError list"

text \<open>
  Modelled from the spec: the records \<open>Papa.parse\<close> produces, each with the index it was
  found at and its anomalies: blank ones skipped, then cut at the limit.
\<close>

definition papa_records :: "string \<Rightarrow> PapaConfig \<Rightarrow> (nat \<times> string list \<times> anomaly list) list" where
  "papa_records content cfg =
     (let found = (if content = [] then []
                   else scan (usable_delimiter (cfg_delimiter cfg)) 0 FieldStart [] [] [] content);
          numbered = zip [0 ..< length found] found;
          kept = (if cfg_skipEmptyLines cfg
                  then filter (\<lambda>r. \<not> blank_record (fst (snd r))) numbered
                  else numbered)
      in if cfg_preview cfg > 0 then take (cfg_preview cfg) kept else kept)"

text \<open>Modelled from the spec: \<open>Papa.parse\<close>, its rows and its errors.\<close>

definition papa_parse :: "string \<Rightarrow> PapaConfig \<Rightarrow> PapaResult" where
  "papa_parse content cfg =
     (let records = papa_records content cfg
      in \<lparr>papa_data = map (\<lambda>r. fst (snd r)) records,
          papa_errors = concat (map (\<lambda>r. map (anomaly_error (fst r)) (snd (snd r))) records)\<rparr>)"

subsection \<open>parseCSV\<close>

definition parseCSV :: "string \<Rightarrow> ParseOptions \<Rightarrow> ParseResult" where
  "parseCSV content options =
     (let maxRows = (case opt_maxRows options of None \<Rightarrow> 10000 | Some m \<Rightarrow> m);
          skipEmptyLines = (case opt_skipEmptyLines options of None \<Rightarrow> True | Some b \<Rightarrow> b);
          parseResult = papa_parse content
            \<lparr>cfg_delimiter = opt_delimiter options,
             cfg_skipEmptyLines = skipEmptyLines,
             cfg_preview = (if maxRows > 0 then nat (maxRows + 1) else 0)\<rparr>;
          allRows = papa_data parseResult;
          hdrs = (if length allRows > 0 then allRows ! 0 else []);
          rows = slice_from 1 allRows;
          errs = map (\<lambda>err. \<lparr>err_type = err_type err, err_code = err_code err,
                               err_message = err_message err, err_row = err_row err\<rparr>)
                     (papa_errors parseResult)
      in \<lparr>data = rows, headers = hdrs, totalRows = length rows, errors = errs\<rparr>)"

subsection \<open>estimateRowCount\<close>

definition estimateRowCount :: "string \<Rightarrow> nat" where
  "estimateRowCount content =
     (let sampleSize = min (length content) 10000;
          sample = take sampleSize content;
          newlinesInSample = length (filter (\<lambda>c. c = LF) sample)
      in if newlinesInSample = 0 then 1
         else
           (let estimatedTotal =
                  double_floor (double_mul (double_div (length content) sampleSize)
                                           newlinesInSample)
            in max 1 estimatedTotal))"

subsection \<open>getSample\<close>

definition getSample :: "string \<Rightarrow> nat \<Rightarrow> string" where
  "getSample content lines = join_with [LF] (take lines (split_on LF content))"

subsection \<open>validateCSV\<close>

record Validation =
  valid :: bool
  message :: "string option"

definition validateCSV :: "ParseResult \<Rightarrow> Validation" where
  "validateCSV parseResult =
     (if length (headers parseResult) = 0 then
        \<lparr>valid = False, message = Some ''CSV file appears to be empty or has no headers''\<rparr>
      else if length (data parseResult) = 0 then
        \<lparr>valid = False, message = Some ''CSV file has headers but no data rows''\<rparr>
      else
        (let expectedColumns = length (headers parseResult);
             inconsistentRows = filter (\<lambda>row. length row \<noteq> expectedColumns) (data parseResult)
         in if nat_greater_double (length inconsistentRows)
                 (double_mul one_tenth (length (data parseResult)))
            then \<lparr>valid = False,
                  message = Some (''Many rows have inconsistent column counts. Expected ''
                                  @ string_of_nat expectedColumns @ '' columns.'')\<rparr>
            else \<lparr>valid = True, message = None\<rparr>))"

section \<open>The editor provider (loadCsvFile, loadMoreRows)\<close>

text \<open>
  What the provider reads: the outcome of \<open>fs.stat\<close> (the size in bytes) and of
  \<open>fs.readFile\<close> (the decoded text), each the message of the error thrown or the value,
  and the base name of the file path.
\<close>

record FileAccess =
  fs_stat :: "string + nat"
  fs_readFile :: "string + string"
  fs_baseName :: string

text \<open>The settings \<open>csv.delimiter\<close> and \<open>csv.previewRowCount\<close>, defaults applied.\<close>

record Configuration =
  csv_delimiter :: string
  csv_previewRowCount :: int

record CsvData =
  msg_headers :: "string list"
  msg_rows :: "string list list"
  msg_totalRows :: nat
  msg_estimatedTotal :: nat
  msg_delimiter :: string
  msg_fileName :: string
  msg_fileSize :: nat
  msg_hasMore :: bool

text \<open>The message posted to the webview.\<close>

datatype Message =
    ErrorMessage string
  | CsvDataMessage CsvData
  | MoreRowsMessage "string list list" bool

definition maxFileSize :: nat where
  "maxFileSize = 100 * 1024 * 1024"

definition showError :: "string \<Rightarrow> Message" where
  "showError msg = ErrorMessage msg"

definition loadCsvFile :: "FileAccess \<Rightarrow> Configuration \<Rightarrow> Message" where
  "loadCsvFile file config =
     (case fs_stat file of
        Inl thrown \<Rightarrow> showError (''Failed to load CSV: '' @ thrown)
      | Inr bytes \<Rightarrow>
          if bytes > maxFileSize then
            showError (''File is too large ('' @ megabytes_fixed2 bytes
                       @ ''MB). Maximum size is 100MB.'')
          else
            (case fs_readFile file of
               Inl thrown \<Rightarrow> showError (''Failed to load CSV: '' @ thrown)
             | Inr textContent \<Rightarrow>
                 if textContent = [] \<or> length (trim textContent) = 0 then
                   showError ''File is empty''
                 else
                   (let configDelimiter = csv_delimiter config;
                        maxRows = csv_previewRowCount config;
                        sample = getSample textContent 10;
                        delimiter = detectDelimiter sample configDelimiter;
                        parseResult = parseCSV textContent
                          \<lparr>opt_delimiter = Some delimiter, opt_maxRows = Some maxRows,
                           opt_skipEmptyLines = None\<rparr>;
                        validation = validateCSV parseResult
                    in if \<not> valid validation then
                         showError (case message validation of
                                      None \<Rightarrow> ''Invalid CSV format''
                                    | Some m \<Rightarrow> if m = [] then ''Invalid CSV format'' else m)
                       else
                         (let estimatedTotal = estimateRowCount textContent
                          in CsvDataMessage
                               \<lparr>msg_headers = headers parseResult,
                                msg_rows = data parseResult,
                                msg_totalRows = totalRows parseResult,
                                msg_estimatedTotal = estimatedTotal,
                                msg_delimiter = getDelimiterName delimiter,
                                msg_fileName = fs_baseName file,
                                msg_fileSize = bytes,
                                msg_hasMore = (int (totalRows parseResult) \<ge> maxRows)\<rparr>))))"

definition batchSize :: int where
  "batchSize = 5000"

definition loadMoreRows :: "FileAccess \<Rightarrow> Configuration \<Rightarrow> int \<Rightarrow> Message" where
  "loadMoreRows file config currentRows =
     (case fs_readFile file of
        Inl thrown \<Rightarrow> ErrorMessage (''Failed to load more rows: '' @ thrown)
      | Inr textContent \<Rightarrow>
          (let configDelimiter = csv_delimiter config;
               sample = getSample textContent 10;
               delimiter = detectDelimiter sample configDelimiter;
               parseResult = parseCSV textContent
                 \<lparr>opt_delimiter = Some delimiter, opt_maxRows = Some (currentRows + batchSize),
                  opt_skipEmptyLines = None\<rparr>;
               newRows = slice_from currentRows (data parseResult)
           in MoreRowsMessage newRows
                (int (totalRows parseResult) \<ge> currentRows + batchSize)))"


section \<open>Auxiliary facts\<close>

declare string_of_nat.simps [simp del]

subsection \<open>Strings and lists\<close>

lemma trim_empty_iff: "trim s = [] \<longleftrightarrow> list_all is_space s"
proof
  assume "trim s = []"
  then have "\<forall>x\<in>set (dropWhile is_space s). is_space x"
    by (simp add: trim_def)
  then have "dropWhile is_space s = []"
    using hd_dropWhile [of is_space s] hd_in_set [of "dropWhile is_space s"] by blast
  then show "list_all is_space s"
    by (simp add: list_all_iff)
next
  assume "list_all is_space s"
  then show "trim s = []"
    by (auto simp: trim_def list_all_iff dest: set_dropWhileD)
qed

lemma parseCSV_totalRows: "totalRows (parseCSV content opts) = length (data (parseCSV content opts))"
  by (simp add: parseCSV_def Let_def)

lemma slice_from_nonneg: "0 \<le> i \<Longrightarrow> slice_from i xs = drop (nat i) xs"
  by (simp add: slice_from_def)

lemmas parse_eval = parseCSV_def papa_parse_def papa_records_def usable_delimiter_def
  blank_record_def trim_def is_space_def slice_from_def anomaly_error_def Let_def

lemmas detect_eval = detectDelimiter_def sample_lines_def scores_of_def counts_of_def
  score_of_counts_def countDelimiterOccurrences_def best_of_def best_step_def delimiters_def
  getSample_def trim_def is_space_def Let_def

lemma papa_data_preview:
  "0 < p \<Longrightarrow>
   papa_data (papa_parse content \<lparr>cfg_delimiter = d, cfg_skipEmptyLines = s, cfg_preview = p\<rparr>)
     = take p (papa_data (papa_parse content \<lparr>cfg_delimiter = d, cfg_skipEmptyLines = s, cfg_preview = 0\<rparr>))"
  by (simp add: papa_parse_def papa_records_def Let_def take_map)

lemma drop_one_tl: "drop (Suc 0) xs = tl xs"
  by (cases xs) simp_all

lemma first_or_empty: "(if xs \<noteq> [] then xs ! 0 else []) = (case xs of [] \<Rightarrow> [] | x # _ \<Rightarrow> x)"
  by (cases xs) simp_all

lemma parseCSV_data:
  "data (parseCSV content \<lparr>opt_delimiter = d, opt_maxRows = Some maxRows, opt_skipEmptyLines = None\<rparr>)
     = tl (papa_data (papa_parse content
            \<lparr>cfg_delimiter = d, cfg_skipEmptyLines = True,
             cfg_preview = (if maxRows > 0 then nat (maxRows + 1) else 0)\<rparr>))"
  by (simp add: parseCSV_def Let_def slice_from_def drop_one_tl)

lemma parseCSV_headers:
  "headers (parseCSV content \<lparr>opt_delimiter = d, opt_maxRows = Some maxRows, opt_skipEmptyLines = None\<rparr>)
     = (case papa_data (papa_parse content
            \<lparr>cfg_delimiter = d, cfg_skipEmptyLines = True,
             cfg_preview = (if maxRows > 0 then nat (maxRows + 1) else 0)\<rparr>) of
          [] \<Rightarrow> [] | h # _ \<Rightarrow> h)"
  by (simp add: parseCSV_def Let_def first_or_empty)




subsection \<open>Rounding to doubles\<close>

lemma round_half_even_lower: "J * Q \<le> P \<Longrightarrow> 0 < Q \<Longrightarrow> J \<le> round_half_even P Q"
proof -
  assume a: "J * Q \<le> P" and q: "0 < Q"
  have "J \<le> P div Q" using a q by (simp add: less_eq_div_iff_mult_less_eq)
  then show ?thesis by (simp add: round_half_even_def Let_def)
qed

lemma round_half_even_upper: "P \<le> J * Q \<Longrightarrow> 0 < Q \<Longrightarrow> round_half_even P Q \<le> J"
proof -
  assume a: "P \<le> J * Q" and q: "0 < Q"
  have d: "P div Q \<le> J" using a q
    by (metis div_le_mono nonzero_mult_div_cancel_right less_numeral_extra(3))
  show ?thesis
  proof (cases "P mod Q = 0")
    case True
    then show ?thesis using d q by (simp add: round_half_even_def Let_def)
  next
    case False
    have "P div Q * Q < P" using False
      by (metis div_mult_mod_eq less_add_same_cancel1 neq0_conv)
    then have "P div Q * Q < J * Q" using a by (rule less_le_trans)
    then have "P div Q < J" by simp
    then show ?thesis by (simp add: round_half_even_def Let_def)
  qed
qed

text \<open>
  The exponent chosen by \<open>ulp_exponent\<close> is the one of the double: the scaled quotient lies
  between \<open>2 ^ 52\<close> and \<open>2 ^ 53\<close>, so the rounded mantissa has 53 bits.
\<close>

lemma scaled_step:
  "(scaled_num p (e + 1) = scaled_num p e \<and> scaled_den q (e + 1) = 2 * scaled_den q e)
   \<or> (2 * scaled_num p (e + 1) = scaled_num p e \<and> scaled_den q (e + 1) = scaled_den q e)"
proof (cases "0 \<le> e")
  case True
  then have "nat (e + 1) = Suc (nat e)" by simp
  then show ?thesis using True by (simp add: scaled_num_def scaled_den_def)
next
  case False
  then have "nat (- e) = Suc (nat (- (e + 1)))" by simp
  then show ?thesis using False by (auto simp add: scaled_num_def scaled_den_def)
qed

lemma scaled_first:
  assumes "0 < p" "0 < q"
  defines "e0 \<equiv> int (floorlog 2 p) - int (floorlog 2 q) - 53"
  shows "2 ^ 52 * scaled_den q e0 \<le> scaled_num p e0"
    and "scaled_num p e0 < 2 ^ 54 * scaled_den q e0"
proof -
  define a where "a = floorlog 2 p"
  define b where "b = floorlog 2 q"
  have a: "2 ^ (a - 1) \<le> p" "p < 2 ^ a" and b: "2 ^ (b - 1) \<le> q" "q < 2 ^ b"
    using floorlog_bounds [of p 2] floorlog_bounds [of q 2] assms(1,2) by (simp_all add: a_def b_def)
  have a1: "1 \<le> a" using a(2) assms(1) by (cases a) simp_all
  have b1: "1 \<le> b" using b(2) assms(2) by (cases b) simp_all
  show "2 ^ 52 * scaled_den q e0 \<le> scaled_num p e0"
  proof (cases "0 \<le> e0")
    case True
    then have "a - 1 = 52 + (b + nat e0)" using a1 by (simp add: e0_def a_def b_def)
    then have eq: "(2::nat) ^ 52 * (2 ^ b * 2 ^ nat e0) = 2 ^ (a - 1)" by (simp only: power_add)
    have "q \<le> 2 ^ b" using b(2) by simp
    then have "q * 2 ^ nat e0 \<le> 2 ^ b * 2 ^ nat e0" by (rule mult_le_mono1)
    then have "2 ^ 52 * (q * 2 ^ nat e0) \<le> 2 ^ 52 * (2 ^ b * 2 ^ nat e0)" by (rule mult_le_mono2)
    also have "\<dots> = 2 ^ (a - 1)" by (rule eq)
    also have "\<dots> \<le> p" by (rule a(1))
    finally show ?thesis using True by (simp add: scaled_num_def scaled_den_def)
  next
    case False
    then have "52 + b = (a - 1) + nat (- e0)" using a1 by (simp add: e0_def a_def b_def)
    then have "(2::nat) ^ (52 + b) = 2 ^ ((a - 1) + nat (- e0))" by (rule arg_cong)
    then have eq: "(2::nat) ^ 52 * 2 ^ b = 2 ^ (a - 1) * 2 ^ nat (- e0)" by (simp only: power_add)
    have "q \<le> 2 ^ b" using b(2) by simp
    then have "2 ^ 52 * q \<le> 2 ^ 52 * 2 ^ b" by (rule mult_le_mono2)
    also have "\<dots> = 2 ^ (a - 1) * 2 ^ nat (- e0)" by (rule eq)
    also have "\<dots> \<le> p * 2 ^ nat (- e0)" using a(1) by (rule mult_le_mono1)
    finally show ?thesis using False by (simp add: scaled_num_def scaled_den_def)
  qed
  show "scaled_num p e0 < 2 ^ 54 * scaled_den q e0"
  proof (cases "0 \<le> e0")
    case True
    then have "a = 54 + ((b - 1) + nat e0)" using b1 by (simp add: e0_def a_def b_def)
    then have eq: "(2::nat) ^ a = 2 ^ 54 * (2 ^ (b - 1) * 2 ^ nat e0)" by (simp only: power_add)
    have "2 ^ (b - 1) * 2 ^ nat e0 \<le> q * 2 ^ nat e0" using b(1) by (rule mult_le_mono1)
    then have le: "2 ^ 54 * (2 ^ (b - 1) * 2 ^ nat e0) \<le> 2 ^ 54 * (q * 2 ^ nat e0)"
      by (rule mult_le_mono2)
    have "p < 2 ^ a" by (rule a(2))
    also have "\<dots> = 2 ^ 54 * (2 ^ (b - 1) * 2 ^ nat e0)" by (rule eq)
    also have "\<dots> \<le> 2 ^ 54 * (q * 2 ^ nat e0)" by (rule le)
    finally show ?thesis using True by (simp add: scaled_num_def scaled_den_def)
  next
    case False
    then have "a + nat (- e0) = 54 + (b - 1)" using b1 by (simp add: e0_def a_def b_def)
    then have "(2::nat) ^ (a + nat (- e0)) = 2 ^ (54 + (b - 1))" by (rule arg_cong)
    then have eq: "(2::nat) ^ a * 2 ^ nat (- e0) = 2 ^ 54 * 2 ^ (b - 1)"
      by (simp only: power_add)
    have "p * 2 ^ nat (- e0) < 2 ^ a * 2 ^ nat (- e0)" using a(2) by simp
    also have "\<dots> = 2 ^ 54 * 2 ^ (b - 1)" by (rule eq)
    also have "\<dots> \<le> 2 ^ 54 * q" using b(1) by (rule mult_le_mono2)
    finally show ?thesis using False by (simp add: scaled_num_def scaled_den_def)
  qed
qed

lemma ulp_exponent_normal:
  assumes "0 < p" "0 < q"
  shows "2 ^ 52 * scaled_den q (ulp_exponent p q) \<le> scaled_num p (ulp_exponent p q)"
    and "scaled_num p (ulp_exponent p q) < 2 ^ 53 * scaled_den q (ulp_exponent p q)"
proof -
  define e0 where "e0 = int (floorlog 2 p) - int (floorlog 2 q) - 53"
  define N D where "N = scaled_num p e0" and "D = scaled_den q e0"
  have lo: "2 ^ 52 * D \<le> N" and hi: "N < 2 ^ 54 * D"
    using scaled_first [OF assms] by (simp_all add: N_def D_def e0_def)
  have Dpos: "0 < D" using assms(2) by (simp add: D_def scaled_den_def)
  have e: "ulp_exponent p q = (if 2 ^ 53 \<le> N div D then e0 + 1 else e0)"
    by (simp add: ulp_exponent_def Let_def e0_def N_def D_def)
  have both: "2 ^ 52 * scaled_den q (ulp_exponent p q) \<le> scaled_num p (ulp_exponent p q)
      \<and> scaled_num p (ulp_exponent p q) < 2 ^ 53 * scaled_den q (ulp_exponent p q)"
  proof (cases "2 ^ 53 \<le> N div D")
    case True
    then have big: "2 ^ 53 * D \<le> N" using Dpos by (simp add: less_eq_div_iff_mult_less_eq)
    from scaled_step [of p e0 q] show ?thesis
      unfolding e using True big hi by (auto simp add: N_def D_def)
  next
    case False
    then have "N div D < 2 ^ 53" by simp
    then have "N < 2 ^ 53 * D" using Dpos by (simp add: div_less_iff_less_mult mult.commute)
    then show ?thesis unfolding e using False lo by (simp add: N_def D_def)
  qed
  then show "2 ^ 52 * scaled_den q (ulp_exponent p q) \<le> scaled_num p (ulp_exponent p q)"
    and "scaled_num p (ulp_exponent p q) < 2 ^ 53 * scaled_den q (ulp_exponent p q)"
    by blast+
qed

lemma ulp_exponent_le: "ulp_exponent p q \<le> int (floorlog 2 p) - int (floorlog 2 q) - 52"
  by (simp add: ulp_exponent_def Let_def)

lemma round_double_negative_exponent:
  assumes "0 < p" "0 < q" "ulp_exponent p q < 0"
  shows "round_double p q =
     (round_half_even (p * 2 ^ nat (- ulp_exponent p q)) q, 2 ^ nat (- ulp_exponent p q))"
  using assms by (simp add: round_double_def Let_def scaled_num_def scaled_den_def)

lemma floorlog2_eq: "2 ^ w \<le> x \<Longrightarrow> x < 2 ^ Suc w \<Longrightarrow> floorlog 2 x = Suc w"
  using floorlog_ge_SucI [of 2 w x] floorlog_leI [of x 2 "Suc w"] by simp

lemma ulp_exponent_tenth: "ulp_exponent 1 10 = - 56"
proof -
  have a: "floorlog 2 (1::nat) = Suc 0" by (rule floorlog2_eq) simp_all
  have b: "floorlog 2 (10::nat) = Suc 3" by (rule floorlog2_eq) simp_all
  show ?thesis
    unfolding ulp_exponent_def a b by (simp add: scaled_num_def scaled_den_def)
qed

lemma one_tenth_value: "one_tenth = (7205759403792794, 72057594037927936)"
  unfolding one_tenth_def round_double_def ulp_exponent_tenth
  by (simp add: scaled_num_def scaled_den_def round_half_even_def)

lemma tenth_exponent:
  assumes "0 < n" "n < 2 ^ 32"
  shows "ulp_exponent (7205759403792794 * n) 72057594037927936 \<le> - 4"
proof -
  have "7205759403792794 * n < 2 ^ 53 * 2 ^ 32"
    using assms by (intro mult_strict_mono) simp_all
  then have "7205759403792794 * n < (2::nat) ^ 85" by (simp add: power_add [symmetric])
  then have a: "floorlog 2 (7205759403792794 * n) \<le> 85"
    by (intro floorlog_leI) simp_all
  have b: "floorlog 2 (72057594037927936::nat) = Suc 56"
    by (rule floorlog2_eq) simp_all
  show ?thesis
    using ulp_exponent_le [of "7205759403792794 * n" 72057594037927936] a b by simp
qed

lemma exceeds_tenth:
  assumes "0 < n" "n < 2 ^ 32"
  shows "nat_greater_double k (double_mul one_tenth n) \<longleftrightarrow> n < 10 * k"
proof -
  let ?c = "7205759403792794::nat"
  let ?D = "72057594037927936::nat"
  define E where "E = nat (- ulp_exponent (?c * n) ?D)"
  have E4: "4 \<le> E" using tenth_exponent [OF assms] by (simp add: E_def)
  define F where "F = E - 4"
  have "E = 4 + F" using E4 by (simp add: F_def)
  then have EF: "(2::nat) ^ E = 16 * 2 ^ F" by (simp add: power_add)
  have neg: "ulp_exponent (?c * n) ?D < 0" using tenth_exponent [OF assms] by simp
  have rd: "double_mul one_tenth n = (round_half_even (?c * n * 2 ^ E) ?D, 2 ^ E)"
    using round_double_negative_exponent [OF _ _ neg] assms
    by (simp add: double_mul_def one_tenth_value E_def)
  show ?thesis
  proof (cases "n < 10 * k")
    case True
    have "16 * ?c * n \<le> (16 * k - 1) * ?D" using True assms by simp
    then have "16 * ?c * n * 2 ^ F \<le> (16 * k - 1) * ?D * 2 ^ F" by (rule mult_le_mono1)
    then have "?c * n * 2 ^ E \<le> ((16 * k - 1) * 2 ^ F) * ?D" by (simp add: EF mult_ac)
    then have "round_half_even (?c * n * 2 ^ E) ?D \<le> (16 * k - 1) * 2 ^ F"
      by (rule round_half_even_upper) simp
    also have "\<dots> < 16 * k * 2 ^ F" using True by simp
    finally show ?thesis using True by (simp add: rd nat_greater_double_def EF mult_ac)
  next
    case False
    have "k * ?D \<le> ?c * n" using False by simp
    then have "k * ?D * 2 ^ E \<le> ?c * n * 2 ^ E" by (rule mult_le_mono1)
    then have "(k * 2 ^ E) * ?D \<le> ?c * n * 2 ^ E" by (simp add: mult_ac)
    then have "k * 2 ^ E \<le> round_half_even (?c * n * 2 ^ E) ?D"
      by (rule round_half_even_lower) simp
    then show ?thesis using False by (simp add: rd nat_greater_double_def)
  qed
qed

subsection \<open>Evaluation and scanning\<close>

lemma string_of_nat_2: "string_of_nat (Suc (Suc 0)) = ''2''"
  by (simp add: string_of_nat.simps digit_def)

lemma scan_InField_plain:
  "d \<notin> set v \<Longrightarrow> LF \<notin> set v \<Longrightarrow>
     scan [d] 0 InField fld rw an (v @ rest) = scan [d] 0 InField (fld @ v) rw an rest"
  by (induction v arbitrary: fld) auto

lemma scan_FieldStart_plain:
  assumes "v \<noteq> []" "d \<notin> set v" "LF \<notin> set v" "DQ \<notin> set v"
  shows "scan [d] 0 FieldStart [] rw an (v @ rest) = scan [d] 0 InField v rw an rest"
proof -
  obtain c cs where v: "v = c # cs" using assms(1) by (cases v) auto
  have "scan [d] 0 FieldStart [] rw an (c # cs @ rest) = scan [d] 0 InField [c] rw an (cs @ rest)"
    using assms v by auto
  also have "\<dots> = scan [d] 0 InField ([c] @ cs) rw an rest"
    using assms v by (intro scan_InField_plain) auto
  finally show ?thesis by (simp add: v)
qed

lemma not_blank_nonempty: "\<not> list_all is_space v \<Longrightarrow> v \<noteq> []"
  by auto

lemma scan_two_lines:
  assumes "d \<noteq> LF"
    and "h \<noteq> []" "d \<notin> set h" "LF \<notin> set h" "DQ \<notin> set h"
    and "v \<noteq> []" "d \<notin> set v" "LF \<notin> set v" "DQ \<notin> set v"
  shows "scan [d] 0 FieldStart [] [] [] (h @ [LF] @ v) = [([h], []), ([v], [])]"
proof -
  have "scan [d] 0 FieldStart [] [] [] (h @ [LF] @ v) = scan [d] 0 InField h [] [] ([LF] @ v)"
    using assms by (intro scan_FieldStart_plain) auto
  also have "\<dots> = ([h], []) # scan [d] 0 FieldStart [] [] [] (v @ [])"
    using assms by simp
  also have "scan [d] 0 FieldStart [] [] [] (v @ []) = scan [d] 0 InField v [] [] []"
    using assms by (intro scan_FieldStart_plain) auto
  finally show ?thesis by simp
qed

subsection \<open>Choosing the best score\<close>

lemma fold_best_step:
  "fold best_step es (b, s) = (b', s') \<Longrightarrow>
     (b' = b \<and> s' = s \<and> (\<forall>j<length es. snd (es ! j) \<le> s))
     \<or> (\<exists>i<length es. es ! i = (b', s') \<and> s < s'
           \<and> (\<forall>j<length es. snd (es ! j) \<le> s') \<and> (\<forall>j<i. snd (es ! j) < s'))"
proof (induction es arbitrary: b s)
  case Nil
  then show ?case by simp
next
  case (Cons e es)
  show ?case
  proof (cases "snd e > s")
    case True
    then have "best_step e (b, s) = (fst e, snd e)" by (simp add: best_step_def)
    then have "fold best_step es (fst e, snd e) = (b', s')"
      using Cons.prems by simp
    from Cons.IH [OF this] show ?thesis
    proof
      assume a: "b' = fst e \<and> s' = snd e \<and> (\<forall>j<length es. snd (es ! j) \<le> snd e)"
      then have "(e # es) ! 0 = (b', s') \<and> s < s'
           \<and> (\<forall>j<length (e # es). snd ((e # es) ! j) \<le> s') \<and> (\<forall>j<0. snd ((e # es) ! j) < s')"
        using True by (auto simp add: nth_Cons' )
      then show ?thesis by blast
    next
      assume "\<exists>i<length es. es ! i = (b', s') \<and> snd e < s'
           \<and> (\<forall>j<length es. snd (es ! j) \<le> s') \<and> (\<forall>j<i. snd (es ! j) < s')"
      then obtain i where i: "i < length es" "es ! i = (b', s')" "snd e < s'"
          "\<forall>j<length es. snd (es ! j) \<le> s'" "\<forall>j<i. snd (es ! j) < s'" by blast
      have "Suc i < length (e # es) \<and> (e # es) ! Suc i = (b', s') \<and> s < s'
           \<and> (\<forall>j<length (e # es). snd ((e # es) ! j) \<le> s')
           \<and> (\<forall>j<Suc i. snd ((e # es) ! j) < s')"
        using i True by (auto simp add: nth_Cons' less_Suc_eq_0_disj)
      then show ?thesis by blast
    qed
  next
    case False
    then have "best_step e (b, s) = (b, s)" by (simp add: best_step_def)
    then have "fold best_step es (b, s) = (b', s')"
      using Cons.prems by simp
    from Cons.IH [OF this] show ?thesis
    proof
      assume "b' = b \<and> s' = s \<and> (\<forall>j<length es. snd (es ! j) \<le> s)"
      then show ?thesis using False by (auto simp add: nth_Cons')
    next
      assume "\<exists>i<length es. es ! i = (b', s') \<and> s < s'
           \<and> (\<forall>j<length es. snd (es ! j) \<le> s') \<and> (\<forall>j<i. snd (es ! j) < s')"
      then obtain i where i: "i < length es" "es ! i = (b', s')" "s < s'"
          "\<forall>j<length es. snd (es ! j) \<le> s'" "\<forall>j<i. snd (es ! j) < s'" by blast
      have "Suc i < length (e # es) \<and> (e # es) ! Suc i = (b', s') \<and> s < s'
           \<and> (\<forall>j<length (e # es). snd ((e # es) ! j) \<le> s')
           \<and> (\<forall>j<Suc i. snd ((e # es) ! j) < s')"
        using i False by (auto simp add: nth_Cons' less_Suc_eq_0_disj)
      then show ?thesis by blast
    qed
  qed
qed

lemma score_of_counts_spec:
  "2 \<le> length counts \<Longrightarrow> score_of_counts counts = Some (spec_score counts)"
  by (auto simp add: score_of_counts_def spec_score_def Let_def)

lemma scores_of_spec:
  assumes "2 \<le> length lines"
  shows "scores_of lines = map (\<lambda>d. (d, spec_score (counts_of lines d))) delimiters"
proof -
  have "score_of_counts (counts_of lines d) = Some (spec_score (counts_of lines d))" for d
    using assms by (intro score_of_counts_spec) (simp add: counts_of_def)
  then show ?thesis by (simp add: scores_of_def delimiters_def)
qed

lemma best_candidate:
  assumes "2 \<le> length (sample_lines sample)"
  shows "\<exists>i<4. detectDelimiter sample ''auto'' = delimiters ! i
           \<and> (\<forall>j<4. spec_score (counts_of (sample_lines sample) (delimiters ! j))
                      \<le> spec_score (counts_of (sample_lines sample) (delimiters ! i)))
           \<and> (\<forall>j<i. spec_score (counts_of (sample_lines sample) (delimiters ! j))
                      < spec_score (counts_of (sample_lines sample) (delimiters ! i)))"
proof -
  let ?lines = "sample_lines sample"
  let ?sc = "\<lambda>d. spec_score (counts_of ?lines d)"
  let ?es = "map (\<lambda>d. (d, ?sc d)) delimiters"
  have len: "length delimiters = 4" by (simp add: delimiters_def)
  have d0: "delimiters ! 0 = '',''" by (simp add: delimiters_def)
  obtain b' s' where f: "fold best_step ?es ('','', 0) = (b', s')" by fastforce
  have "sample_lines sample \<noteq> []" using assms by auto
  then have r: "detectDelimiter sample ''auto'' = b'"
    using assms f by (simp add: detectDelimiter_def Let_def best_of_def scores_of_spec)
  from fold_best_step [OF f] show ?thesis
  proof
    assume a: "b' = '','' \<and> s' = 0 \<and> (\<forall>j<length ?es. snd (?es ! j) \<le> 0)"
    then have "\<forall>j<4. ?sc (delimiters ! j) = 0" using len by simp
    then have "detectDelimiter sample ''auto'' = delimiters ! 0
           \<and> (\<forall>j<4. ?sc (delimiters ! j) \<le> ?sc (delimiters ! 0))
           \<and> (\<forall>j<0. ?sc (delimiters ! j) < ?sc (delimiters ! 0))"
      using a r d0 by simp
    then show ?thesis by (intro exI [of _ 0]) simp
  next
    assume "\<exists>i<length ?es. ?es ! i = (b', s') \<and> 0 < s'
           \<and> (\<forall>j<length ?es. snd (?es ! j) \<le> s') \<and> (\<forall>j<i. snd (?es ! j) < s')"
    then obtain i where i: "i < 4" "?es ! i = (b', s')"
        "\<forall>j<length ?es. snd (?es ! j) \<le> s'" "\<forall>j<i. snd (?es ! j) < s'"
      using len by auto
    have "(delimiters ! i, ?sc (delimiters ! i)) = (b', s')"
      using i(1,2) len by auto
    then have b: "b' = delimiters ! i" and s: "s' = ?sc (delimiters ! i)"
      by blast+
    have "\<forall>j<4. ?sc (delimiters ! j) \<le> ?sc (delimiters ! i)"
      using i(3) len s by simp
    moreover have "\<forall>j<i. ?sc (delimiters ! j) < ?sc (delimiters ! i)"
      using i(1,4) len s by simp
    ultimately show ?thesis using r b i(1) by blast
  qed
qed

lemma less_4_cases: "j < (4::nat) \<longleftrightarrow> j = 0 \<or> j = 1 \<or> j = 2 \<or> j = 3"
  by arith

subsection \<open>Validation and evaluation of doubles\<close>

lemma validateCSV_invalid_message:
  "\<not> valid (validateCSV parseResult) \<Longrightarrow>
     \<exists>m. message (validateCSV parseResult) = Some m \<and> m \<noteq> []"
  by (simp add: validateCSV_def Let_def split: if_splits)

lemma estimate_counts:
  "length (filter (\<lambda>c. c = LF) (take (min (length (replicate k LF @ replicate n (CHR ''a''))) 10000)
      (replicate k LF @ replicate n (CHR ''a'')))) = min k 10000"
  by (simp add: min_def)

lemma floorlog_10050: "floorlog 2 (10050::nat) = 14"
  using floorlog2_eq [of 13 10050] by simp
lemma floorlog_10000: "floorlog 2 (10000::nat) = 14"
  using floorlog2_eq [of 13 10000] by simp
lemma floorlog_100000: "floorlog 2 (100000::nat) = 17"
  using floorlog2_eq [of 16 100000] by simp

lemmas double_eval = round_double_def ulp_exponent_def scaled_num_def scaled_den_def
  round_half_even_def double_div_def double_mul_def double_floor_def Let_def

lemma quotient_10050: "double_div 10050 10000 = (4526117625507348, 4503599627370496)"
  by (simp add: double_eval floorlog_10050 floorlog_10000)

lemma floorlog_product_10050: "floorlog 2 (905223525101469600::nat) = 60"
  using floorlog2_eq [of 59 905223525101469600] by simp
lemma floorlog_two_52: "floorlog 2 (4503599627370496::nat) = 53"
  using floorlog2_eq [of 52 4503599627370496] by simp

lemma floor_product_10050: "double_floor (double_mul (4526117625507348, 4503599627370496) 200) = 200"
  by (simp add: double_eval floorlog_product_10050 floorlog_two_52)

subsection \<open>The estimate in double arithmetic\<close>

lemma round_half_even_near:
  assumes "0 < Q"
  shows "2 * round_half_even P Q * Q \<le> 2 * P + Q"
    and "2 * P \<le> 2 * round_half_even P Q * Q + Q"
proof -
  define m r where "m = P div Q" and "r = P mod Q"
  have P: "P = m * Q + r" by (simp add: m_def r_def)
  have r: "r < Q" using assms by (simp add: r_def)
  have rhe: "round_half_even P Q = (if 2 * r > Q \<or> (2 * r = Q \<and> odd m) then m + 1 else m)"
    by (simp add: round_half_even_def m_def r_def Let_def)
  have "2 * round_half_even P Q * Q \<le> 2 * (m * Q + r) + Q"
    unfolding rhe by (auto simp add: algebra_simps)
  then show "2 * round_half_even P Q * Q \<le> 2 * P + Q"
    by (simp only: P [symmetric])
  have "2 * (m * Q + r) \<le> 2 * round_half_even P Q * Q + Q"
    unfolding rhe using r by (auto simp add: algebra_simps)
  then show "2 * P \<le> 2 * round_half_even P Q * Q + Q"
    by (simp only: P [symmetric])
qed

lemma floorlog_two_power: "floorlog 2 ((2::nat) ^ n) = Suc n"
  by (rule floorlog2_eq) simp_all

lemma floorlog_sample:
  assumes "0 < L" "L < 2 ^ 32"
  shows "int (floorlog 2 L) - int (floorlog 2 (min L 10000)) \<le> 18"
proof (cases "L \<le> 10000")
  case True
  then show ?thesis by (simp add: min_def)
next
  case False
  have "floorlog 2 L \<le> 32" using assms by (intro floorlog_leI) simp_all
  then show ?thesis using False by (simp add: min_def floorlog_10000)
qed

lemma estimate_shape:
  assumes S: "0 < S" "S \<le> L" "S \<le> 10000" and k: "0 < k" "k \<le> S" and L: "L < 2 ^ 32"
    and fl: "int (floorlog 2 L) - int (floorlog 2 S) \<le> 18"
  obtains A B where "17179869184 \<le> A" and "2097152 \<le> B"
    and "double_floor (double_mul (double_div L S) k)
           = round_half_even (round_half_even (L * A) S * k * B) A div B"
proof -
  have Lpos: "0 < L" using S by simp
  \<comment> \<open>the quotient\<close>
  define E1 where "E1 = nat (- ulp_exponent L S)"
  define A where "A = (2::nat) ^ E1"
  have e1: "ulp_exponent L S \<le> - 34"
    using ulp_exponent_le [of L S] fl by simp
  then have E1: "34 \<le> E1" by (simp add: E1_def)
  have "(2::nat) ^ 34 \<le> 2 ^ E1" using E1 by (intro power_increasing) simp_all
  then have A: "17179869184 \<le> A" by (simp add: A_def)
  define m1 where "m1 = round_half_even (L * A) S"
  have x1: "double_div L S = (m1, A)"
    using round_double_negative_exponent [of L S] Lpos S e1
    by (simp add: double_div_def m1_def A_def E1_def)
  have f1: "2 * m1 * S \<le> 2 * (L * A) + S" and f2: "2 * (L * A) \<le> 2 * m1 * S + S"
    unfolding m1_def using round_half_even_near [OF S(1)] by blast+
  have "1 * S \<le> L * A" using S A by (intro mult_le_mono) simp_all
  then have m1pos: "1 \<le> m1" unfolding m1_def using S(1) by (rule round_half_even_lower)
  \<comment> \<open>the product\<close>
  have "2 * m1 * S * k \<le> (2 * (L * A) + S) * k" using f1 by (rule mult_le_mono1)
  also have "\<dots> = 2 * L * A * k + S * k" by (simp add: algebra_simps)
  also have "\<dots> \<le> 2 * L * A * S + S * k" using k by simp
  finally have "S * (2 * (m1 * k)) \<le> S * (2 * L * A + k)" by (simp add: algebra_simps)
  then have m1k: "2 * (m1 * k) \<le> 2 * L * A + k" using S(1) by simp
  have "L \<le> 4294967295" using L by simp
  then have "L * A \<le> 4294967295 * A" by (rule mult_le_mono1)
  moreover have "2 * L * A = 2 * (L * A)" by simp
  ultimately have "2 * (m1 * k) \<le> 2 * (4294967295 * A) + k" using m1k by linarith
  also have "\<dots> \<le> 2 * (4294967295 * A) + A" using k S A by simp
  also have "\<dots> < 2 * (4294967296 * A)" using A by simp
  finally have "m1 * k < 2 ^ 32 * A" by (simp add: mult_ac)
  then have "m1 * k < 2 ^ (32 + E1)" by (simp add: A_def power_add)
  then have fl1: "floorlog 2 (m1 * k) \<le> 32 + E1" by (intro floorlog_leI) simp_all
  have fl2: "floorlog 2 A = Suc E1" by (simp add: A_def floorlog_two_power)
  define E2 where "E2 = nat (- ulp_exponent (m1 * k) A)"
  define B where "B = (2::nat) ^ E2"
  have e2: "ulp_exponent (m1 * k) A \<le> - 21"
    using ulp_exponent_le [of "m1 * k" A] fl1 fl2 by simp
  then have E2: "21 \<le> E2" by (simp add: E2_def)
  have "(2::nat) ^ 21 \<le> 2 ^ E2" using E2 by (intro power_increasing) simp_all
  then have B: "2097152 \<le> B" by (simp add: B_def)
  define m2 where "m2 = round_half_even (m1 * k * B) A"
  have Apos: "0 < A" using A by simp
  have Bpos: "0 < B" using B by simp
  have mkpos: "0 < m1 * k" using m1pos k by simp
  have x2: "double_mul (double_div L S) k = (m2, B)"
    using round_double_negative_exponent [of "m1 * k" A] mkpos Apos e2
    by (simp add: double_mul_def x1 m2_def B_def E2_def)
  have res: "double_floor (double_mul (double_div L S) k) = m2 div B"
    by (simp add: x2 double_floor_def)
  show thesis using that [OF A B] res by (simp add: m2_def m1_def)
qed

lemma estimate_bounds:
  assumes S: "0 < S" "S \<le> L" "S \<le> 10000" and k: "0 < k" "k \<le> S" and L: "L < 2 ^ 32"
    and fl: "int (floorlog 2 L) - int (floorlog 2 S) \<le> 18"
  shows "(L * k) div S - 1 \<le> double_floor (double_mul (double_div L S) k)"
    and "double_floor (double_mul (double_div L S) k) \<le> (L * k) div S"
proof -
  define fx where "fx = (L * k) div S"
  from estimate_shape [OF assms] obtain A B where A: "17179869184 \<le> A" and B: "2097152 \<le> B"
    and shape: "double_floor (double_mul (double_div L S) k)
           = round_half_even (round_half_even (L * A) S * k * B) A div B"
    by blast
  define m1 where "m1 = round_half_even (L * A) S"
  define m2 where "m2 = round_half_even (m1 * k * B) A"
  have res: "double_floor (double_mul (double_div L S) k) = m2 div B"
    by (simp add: shape m2_def m1_def)
  have Apos: "0 < A" using A by simp
  have Bpos: "0 < B" using B by simp
  have f1: "2 * m1 * S \<le> 2 * (L * A) + S" and f2: "2 * (L * A) \<le> 2 * m1 * S + S"
    unfolding m1_def using round_half_even_near [OF S(1)] by blast+
  \<comment> \<open>the exact quotient\<close>
  have fx_le: "S * fx \<le> L * k" by (simp add: fx_def)
  have fx_gt: "L * k + 1 \<le> S * (fx + 1)"
    using S(1) dividend_less_times_div [of S "L * k"] by (simp add: fx_def)
  have Sk: "S * k \<le> A"
  proof -
    have "S * k \<le> 10000 * 10000" using S k by (intro mult_le_mono) simp_all
    then show ?thesis using A by simp
  qed
  have S2: "2 * S \<le> B" using S B by simp
  \<comment> \<open>upper bound\<close>
  define a1 where "a1 = S * k * B"
  define a2 where "a2 = A * B"
  define a3 where "a3 = S * A"
  define a4 where "a4 = L * k * A * B"
  define a5 where "a5 = S * m1 * k * B"
  define a6 where "a6 = S * fx * A * B"
  define a7 where "a7 = S * A * B"
  have F1: "2 * a5 \<le> 2 * a4 + a1"
  proof -
    have "(2 * m1 * S) * (k * B) \<le> (2 * (L * A) + S) * (k * B)" using f1 by (rule mult_le_mono1)
    moreover have "(2 * m1 * S) * (k * B) = 2 * a5" by (simp only: a5_def mult_ac)
    moreover have "(2 * (L * A) + S) * (k * B) = 2 * a4 + a1"
      by (simp only: a4_def a1_def algebra_simps)
    ultimately show ?thesis by simp
  qed
  have F2: "a1 \<le> a2" unfolding a1_def a2_def using Sk by (rule mult_le_mono1)
  have F3: "2 * a3 \<le> a2"
  proof -
    have "2 * S * A \<le> B * A" using S2 by (rule mult_le_mono1)
    moreover have "2 * S * A = 2 * a3" by (simp only: a3_def mult_ac)
    moreover have "B * A = a2" by (simp only: a2_def mult_ac)
    ultimately show ?thesis by simp
  qed
  have F4: "2 * a4 + 2 * a2 \<le> 2 * a6 + 2 * a7"
  proof -
    have "(L * k + 1) * (2 * A * B) \<le> S * (fx + 1) * (2 * A * B)"
      using fx_gt by (rule mult_le_mono1)
    moreover have "(L * k + 1) * (2 * A * B) = 2 * a4 + 2 * a2"
      by (simp only: a4_def a2_def algebra_simps)
    moreover have "S * (fx + 1) * (2 * A * B) = 2 * a6 + 2 * a7"
      by (simp only: a6_def a7_def algebra_simps)
    ultimately show ?thesis by simp
  qed
  have "2 * a5 + 2 * a3 \<le> 2 * a6 + 2 * a7" using F1 F2 F3 F4 by linarith
  moreover have "2 * a5 + 2 * a3 = (2 * S) * (m1 * k * B + A)"
    by (simp only: a5_def a3_def algebra_simps)
  moreover have "2 * a6 + 2 * a7 = (2 * S) * ((fx + 1) * B * A)"
    by (simp only: a6_def a7_def algebra_simps)
  ultimately have "(2 * S) * (m1 * k * B + A) \<le> (2 * S) * ((fx + 1) * B * A)" by simp
  then have "m1 * k * B + A \<le> (fx + 1) * B * A" using S(1) by simp
  moreover have "((fx + 1) * B - 1) * A = (fx + 1) * B * A - A"
    by (simp add: diff_mult_distrib)
  ultimately have "m1 * k * B \<le> ((fx + 1) * B - 1) * A" by linarith
  then have "m2 \<le> (fx + 1) * B - 1" unfolding m2_def using Apos by (rule round_half_even_upper)
  then have "m2 < (fx + 1) * B" using Bpos by simp
  then have "m2 div B < fx + 1" using Bpos by (simp add: less_mult_imp_div_less)
  then show "double_floor (double_mul (double_div L S) k) \<le> (L * k) div S"
    by (simp add: res fx_def)
  \<comment> \<open>lower bound\<close>
  have "(fx - 1) * A \<le> m1 * k"
  proof (cases fx)
    case 0
    then show ?thesis by simp
  next
    case (Suc g)
    define b1 where "b1 = L * k * A"
    define b2 where "b2 = S * m1 * k"
    define b3 where "b3 = S * k"
    define b4 where "b4 = S * g * A"
    define b5 where "b5 = S * A"
    have G1: "2 * b1 \<le> 2 * b2 + b3"
    proof -
      have "2 * (L * A) * k \<le> (2 * m1 * S + S) * k" using f2 by (rule mult_le_mono1)
      moreover have "2 * (L * A) * k = 2 * b1" by (simp only: b1_def mult_ac)
      moreover have "(2 * m1 * S + S) * k = 2 * b2 + b3"
        by (simp only: b2_def b3_def algebra_simps)
      ultimately show ?thesis by simp
    qed
    have G2: "2 * b4 + 2 * b5 \<le> 2 * b1"
    proof -
      have "S * fx * (2 * A) \<le> L * k * (2 * A)" using fx_le by (rule mult_le_mono1)
      moreover have "S * fx * (2 * A) = 2 * b4 + 2 * b5"
        unfolding Suc by (simp only: b4_def b5_def algebra_simps Suc_eq_plus1)
      moreover have "L * k * (2 * A) = 2 * b1" by (simp only: b1_def mult_ac)
      ultimately show ?thesis by simp
    qed
    have G3: "b3 \<le> 2 * b5"
    proof -
      have "k \<le> 2 * A" using k S A by simp
      then have "S * k \<le> S * (2 * A)" by (rule mult_le_mono2)
      moreover have "S * (2 * A) = 2 * b5" by (simp only: b5_def mult_ac)
      ultimately show ?thesis by (simp add: b3_def)
    qed
    have "2 * b4 \<le> 2 * b2" using G1 G2 G3 by linarith
    moreover have "2 * b4 = (2 * S) * (g * A)" by (simp only: b4_def mult_ac)
    moreover have "2 * b2 = (2 * S) * (m1 * k)" by (simp only: b2_def mult_ac)
    ultimately have "(2 * S) * (g * A) \<le> (2 * S) * (m1 * k)" by simp
    then show ?thesis using S(1) by (simp add: Suc)
  qed
  then have "(fx - 1) * A * B \<le> m1 * k * B" by (rule mult_le_mono1)
  then have "((fx - 1) * B) * A \<le> m1 * k * B" by (simp add: mult_ac)
  then have "(fx - 1) * B \<le> m2" unfolding m2_def using Apos by (rule round_half_even_lower)
  then have "fx - 1 \<le> m2 div B" using Bpos by (simp add: less_eq_div_iff_mult_less_eq)
  then show "(L * k) div S - 1 \<le> double_floor (double_mul (double_div L S) k)"
    by (simp add: res fx_def)
qed

lemma estimate_exact:
  assumes S: "0 < S" "S \<le> L" "S \<le> 10000" and k: "0 < k" "k \<le> S" and L: "L < 2 ^ 32"
    and fl: "int (floorlog 2 L) - int (floorlog 2 S) \<le> 18"
    and dvd: "S dvd L"
  shows "double_floor (double_mul (double_div L S) k) = (L * k) div S"
proof -
  from estimate_shape [OF S k L fl] obtain A B where A: "17179869184 \<le> A" and B: "2097152 \<le> B"
    and shape: "double_floor (double_mul (double_div L S) k)
           = round_half_even (round_half_even (L * A) S * k * B) A div B"
    by blast
  obtain q where q: "L = q * S" using dvd by (auto simp add: dvd_def mult.commute)
  have Apos: "0 < A" using A by simp
  have Bpos: "0 < B" using B by simp
  have exact: "round_half_even (J * Q) Q = J" if "0 < Q" for J Q
    using round_half_even_lower [of J Q "J * Q"] round_half_even_upper [of "J * Q" J Q] that
    by simp
  have LA: "L * A = (q * A) * S" by (simp only: q mult_ac)
  have m1: "round_half_even (L * A) S = q * A"
    unfolding LA by (rule exact [OF S(1)])
  have qA: "q * A * k * B = (q * k * B) * A" by (simp only: mult_ac)
  have m2: "round_half_even (q * A * k * B) A = q * k * B"
    unfolding qA by (rule exact [OF Apos])
  have Lk: "L * k = (q * k) * S" by (simp only: q mult_ac)
  have "(L * k) div S = q * k" unfolding Lk using S(1) by simp
  then show ?thesis unfolding shape m1 m2 using Bpos by simp
qed

lemma exact_floor: "nat \<lfloor>real L / real S * real k\<rfloor> = (L * k) div S"
proof -
  have "real L / real S * real k = real (L * k) / real S" by simp
  then show ?thesis by (simp only: floor_divide_of_nat_eq nat_int)
qed

lemma estimate_10050: "double_floor (double_mul (double_div 10050 10000) 200) = 200"
  by (simp only: quotient_10050 floor_product_10050)

section \<open>The record parser\<close>

text \<open>
  C1. For a positive \<open>maxRows\<close>, \<open>parseCSV\<close> returns as headers the first record the
  splitter produces from the text, as rows the records after it, in their order and at
  most \<open>maxRows\<close> of them, and as \<open>totalRows\<close> the number of those rows. The records are
  those of the splitter run without a limit.
\<close>

theorem parseCSV_capped:
  assumes "0 < maxRows"
  shows "(let records = papa_data (papa_parse content
            \<lparr>cfg_delimiter = Some d, cfg_skipEmptyLines = True, cfg_preview = 0\<rparr>);
        result = parseCSV content \<lparr>opt_delimiter = Some d, opt_maxRows = Some maxRows, opt_skipEmptyLines = None\<rparr>
    in headers result = (case records of [] \<Rightarrow> [] | h # _ \<Rightarrow> h)
       \<and> data result = take (nat maxRows) (tl records)
       \<and> length (data result) \<le> nat maxRows
       \<and> totalRows result = length (data result))"
proof -
  let ?records = "papa_data (papa_parse content
            \<lparr>cfg_delimiter = Some d, cfg_skipEmptyLines = True, cfg_preview = 0\<rparr>)"
  let ?result = "parseCSV content \<lparr>opt_delimiter = Some d, opt_maxRows = Some maxRows, opt_skipEmptyLines = None\<rparr>"
  have n: "nat (maxRows + 1) = Suc (nat maxRows)" using assms by simp
  have capped: "papa_data (papa_parse content
            \<lparr>cfg_delimiter = Some d, cfg_skipEmptyLines = True,
             cfg_preview = (if maxRows > 0 then nat (maxRows + 1) else 0)\<rparr>)
        = take (Suc (nat maxRows)) ?records"
    using assms papa_data_preview [of "Suc (nat maxRows)" content "Some d" True] by (simp add: n)
  have h: "headers ?result = (case ?records of [] \<Rightarrow> [] | h # _ \<Rightarrow> h)"
    unfolding parseCSV_headers capped by (cases ?records) simp_all
  have r: "data ?result = take (nat maxRows) (tl ?records)"
    unfolding parseCSV_data capped by (simp add: tl_take)
  have l: "length (data ?result) \<le> nat maxRows"
    unfolding r by simp
  show ?thesis
    unfolding Let_def using h r l parseCSV_totalRows [of content] by blast
qed

theorem parseCSV_capped_witness:
  "(0::int) < 10 \<and>
   parseCSV ''h1,h2\<newline>1,2\<newline>3,4'' \<lparr>opt_delimiter = Some '','', opt_maxRows = Some 10, opt_skipEmptyLines = None\<rparr>
     = \<lparr>data = [[''1'', ''2''], [''3'', ''4'']], headers = [''h1'', ''h2''], totalRows = 2, errors = []\<rparr>
   \<and> data (parseCSV ''h1,h2\<newline>1,2\<newline>3,4'' \<lparr>opt_delimiter = Some '','', opt_maxRows = Some 10, opt_skipEmptyLines = None\<rparr>)
     = take 10 (tl [[''h1'', ''h2''], [''1'', ''2''], [''3'', ''4'']])"
proof -
  have recs: "papa_data (papa_parse ''h1,h2\<newline>1,2\<newline>3,4''
      \<lparr>cfg_delimiter = Some '','', cfg_skipEmptyLines = True, cfg_preview = 0\<rparr>)
      = [[''h1'', ''h2''], [''1'', ''2''], [''3'', ''4'']]"
    by (simp add: parse_eval)
  have pos: "(0::int) < 10" by simp
  have full: "parseCSV ''h1,h2\<newline>1,2\<newline>3,4'' \<lparr>opt_delimiter = Some '','', opt_maxRows = Some 10, opt_skipEmptyLines = None\<rparr>
     = \<lparr>data = [[''1'', ''2''], [''3'', ''4'']], headers = [''h1'', ''h2''], totalRows = 2, errors = []\<rparr>"
    by (simp add: parse_eval)
  have "data (parseCSV ''h1,h2\<newline>1,2\<newline>3,4'' \<lparr>opt_delimiter = Some '','', opt_maxRows = Some 10, opt_skipEmptyLines = None\<rparr>)
     = take (nat 10) (tl [[''h1'', ''h2''], [''1'', ''2''], [''3'', ''4'']])"
    using parseCSV_capped [OF pos, of "''h1,h2\<newline>1,2\<newline>3,4''" "'',''"]
    unfolding recs Let_def by blast
  then show ?thesis using full by simp
qed




text \<open>
  C5. The line \<open>"a,b",c,"d""e"\<close> splits at the comma into the three fields \<open>a,b\<close>, \<open>c\<close>
  and \<open>d"e\<close>, and the detector counts two commas on it: those inside the quoted fields are
  not counted.
\<close>

theorem quoted_line_fields:
  "papa_data (papa_parse ([DQ] @ ''a,b'' @ [DQ] @ '',c,'' @ [DQ] @ ''d'' @ [DQ, DQ] @ ''e'' @ [DQ])
       \<lparr>cfg_delimiter = Some '','', cfg_skipEmptyLines = True, cfg_preview = 0\<rparr>)
     = [[''a,b'', ''c'', ''d'' @ [DQ] @ ''e'']]
   \<and> headers (parseCSV ([DQ] @ ''a,b'' @ [DQ] @ '',c,'' @ [DQ] @ ''d'' @ [DQ, DQ] @ ''e'' @ [DQ])
       \<lparr>opt_delimiter = Some '','', opt_maxRows = None, opt_skipEmptyLines = None\<rparr>)
     = [''a,b'', ''c'', ''d'' @ [DQ] @ ''e'']
   \<and> countDelimiterOccurrences ([DQ] @ ''a,b'' @ [DQ] @ '',c,'' @ [DQ] @ ''d'' @ [DQ, DQ] @ ''e'' @ [DQ]) '','' = 2"
  by (simp add: parse_eval countDelimiterOccurrences_def)

text \<open>
  C9, as stated, fails: a value that is empty or white space only has no delimiter, quote
  or line break, but its line is blank and the parser skips it, so no data row comes back.
\<close>

theorem parseCSV_round_trip_counterexample:
  "data (parseCSV (''h'' @ [LF] @ '''')
       \<lparr>opt_delimiter = Some '','', opt_maxRows = Some 10, opt_skipEmptyLines = None\<rparr>) = []
   \<and> data (parseCSV (''h'' @ [LF] @ '' '')
       \<lparr>opt_delimiter = Some '','', opt_maxRows = Some 10, opt_skipEmptyLines = None\<rparr>) = []"
  by (simp add: parse_eval)

text \<open>
  C9, amended. For a one-character delimiter other than quote, line feed and carriage
  return, and a header and a value that hold a character other than white space and no
  delimiter, quote, line feed or carriage return, parsing the header line followed by the
  value line gives the header as the only header, exactly one data row, and the value as
  its only field.
\<close>

theorem parseCSV_round_trip:
  assumes "d \<noteq> DQ" "d \<noteq> LF" "d \<noteq> CR"
    and "d \<notin> set h" "DQ \<notin> set h" "LF \<notin> set h" "CR \<notin> set h" "\<not> list_all is_space h"
    and "d \<notin> set v" "DQ \<notin> set v" "LF \<notin> set v" "CR \<notin> set v" "\<not> list_all is_space v"
  shows "parseCSV (h @ [LF] @ v)
           \<lparr>opt_delimiter = Some [d], opt_maxRows = maxRows, opt_skipEmptyLines = skip\<rparr>
         = \<lparr>data = [[v]], headers = [h], totalRows = 1, errors = []\<rparr>"
proof -
  have ne: "h \<noteq> []" "v \<noteq> []" using assms by auto
  have found: "scan [d] 0 FieldStart [] [] [] (h @ [LF] @ v) = [([h], []), ([v], [])]"
    using assms ne by (intro scan_two_lines) auto
  have blank: "\<not> blank_record [h]" "\<not> blank_record [v]"
    using assms by (simp_all add: blank_record_def trim_empty_iff)
  have dl: "usable_delimiter (Some [d]) = [d]"
    using assms by (simp add: usable_delimiter_def)
  have recs: "papa_records (h @ LF # v)
       \<lparr>cfg_delimiter = Some [d], cfg_skipEmptyLines = s, cfg_preview = p\<rparr>
     = [(0, [h], []), (1, [v], [])]" if "p = 0 \<or> 2 \<le> p" for s p
    using found blank ne dl that by (auto simp add: papa_records_def Let_def upt_rec)
  define preview where
    "preview = (if (case maxRows of None \<Rightarrow> 10000 | Some m \<Rightarrow> m) > 0
                then nat ((case maxRows of None \<Rightarrow> 10000 | Some m \<Rightarrow> m) + 1) else 0)"
  have p: "preview = 0 \<or> 2 \<le> preview"
    by (auto simp add: preview_def split: option.splits)
  have "parseCSV (h @ LF # v)
           \<lparr>opt_delimiter = Some [d], opt_maxRows = maxRows, opt_skipEmptyLines = skip\<rparr>
         = \<lparr>data = [[v]], headers = [h], totalRows = 1, errors = []\<rparr>"
    unfolding parseCSV_def papa_parse_def Let_def ParseOptions.simps preview_def [symmetric]
      recs [OF p]
    by (simp add: slice_from_def)
  then show ?thesis by simp
qed

theorem parseCSV_round_trip_witness:
  "parseCSV (''name'' @ [LF] @ ''Ada Lovelace'')
      \<lparr>opt_delimiter = Some [CHR '',''], opt_maxRows = Some 10, opt_skipEmptyLines = None\<rparr>
    = \<lparr>data = [[''Ada Lovelace'']], headers = [''name''], totalRows = 1, errors = []\<rparr>"
  by (rule parseCSV_round_trip) (simp_all add: is_space_def)

section \<open>Loading more rows\<close>

text \<open>
  C3, as stated, fails: \<open>loadMoreRows\<close> takes no batch size, it adds the constant 5000.
  On a file of five data rows with two rows already shown it returns the rows at
  indices 2, 3 and 4 and reports that no more rows follow, not two rows and more to come.
\<close>

theorem loadMoreRows_fixed_batch_counterexample:
  "loadMoreRows \<lparr>fs_stat = Inr 11, fs_readFile = Inr ''h\<newline>1\<newline>2\<newline>3\<newline>4\<newline>5'', fs_baseName = ''t.csv''\<rparr>
     \<lparr>csv_delimiter = '','', csv_previewRowCount = 2\<rparr> 2
   = MoreRowsMessage [[''3''], [''4''], [''5'']] False
   \<and> loadMoreRows \<lparr>fs_stat = Inr 11, fs_readFile = Inr ''h\<newline>1\<newline>2\<newline>3\<newline>4\<newline>5'', fs_baseName = ''t.csv''\<rparr>
     \<lparr>csv_delimiter = '','', csv_previewRowCount = 2\<rparr> 2
   \<noteq> MoreRowsMessage [[''3''], [''4'']] True"
proof -
  have rows: "data (parseCSV ''h\<newline>1\<newline>2\<newline>3\<newline>4\<newline>5''
            \<lparr>opt_delimiter = Some '','', opt_maxRows = Some 5002, opt_skipEmptyLines = None\<rparr>)
          = [[''1''], [''2''], [''3''], [''4''], [''5'']]"
    by (simp add: parse_eval)
  show ?thesis
    by (simp add: loadMoreRows_def batchSize_def detectDelimiter_def Let_def parseCSV_totalRows
        rows slice_from_nonneg)
qed

text \<open>
  C3, amended. For a file that can be read and \<open>currentRows \<ge> 0\<close>, \<open>loadMoreRows\<close> parses the
  text again with the limit \<open>currentRows + 5000\<close> and posts the parsed rows from index
  \<open>currentRows\<close> on, with \<open>hasMore\<close> true exactly when the number of parsed rows is at
  least \<open>currentRows + 5000\<close>.
\<close>

theorem loadMoreRows_slice:
  assumes "fs_readFile file = Inr textContent"
    and "0 \<le> currentRows"
  shows "loadMoreRows file config currentRows =
     (let parseResult = parseCSV textContent
            \<lparr>opt_delimiter = Some (detectDelimiter (getSample textContent 10) (csv_delimiter config)),
             opt_maxRows = Some (currentRows + 5000), opt_skipEmptyLines = None\<rparr>
      in MoreRowsMessage (drop (nat currentRows) (data parseResult))
           (currentRows + 5000 \<le> int (length (data parseResult))))"
  using assms
  by (simp add: loadMoreRows_def batchSize_def Let_def parseCSV_totalRows slice_from_nonneg)

theorem loadMoreRows_slice_witness:
  "loadMoreRows \<lparr>fs_stat = Inr 11, fs_readFile = Inr ''h\<newline>1\<newline>2\<newline>3\<newline>4\<newline>5'', fs_baseName = ''t.csv''\<rparr>
     \<lparr>csv_delimiter = '','', csv_previewRowCount = 2\<rparr> 2
   = MoreRowsMessage (drop 2 [[''1''], [''2''], [''3''], [''4''], [''5'']]) (5002 \<le> int (length [[''1''], [''2''], [''3''], [''4''], [''5'']]))"
proof -
  let ?text = "''h\<newline>1\<newline>2\<newline>3\<newline>4\<newline>5''"
  let ?file = "\<lparr>fs_stat = Inr 11, fs_readFile = Inr ?text, fs_baseName = ''t.csv''\<rparr>"
  let ?config = "\<lparr>csv_delimiter = '','', csv_previewRowCount = 2\<rparr>"
  have rows: "data (parseCSV ?text
            \<lparr>opt_delimiter = Some '','', opt_maxRows = Some 5002, opt_skipEmptyLines = None\<rparr>)
          = [[''1''], [''2''], [''3''], [''4''], [''5'']]"
    by (simp add: parse_eval)
  have "fs_readFile ?file = Inr ?text" and "(0::int) \<le> 2" by simp_all
  from loadMoreRows_slice [OF this, of ?config] show ?thesis
    by (simp add: detectDelimiter_def rows Let_def)
qed

text \<open>
  C10. For a file that can be read, if \<open>currentRows \<ge> 0\<close> is at least the number of rows
  parsed with the limit \<open>currentRows + 5000\<close>, then \<open>loadMoreRows\<close> posts no rows and
  \<open>hasMore = false\<close>, and no error: the slice past the end is the empty list.
\<close>

theorem loadMoreRows_past_end:
  assumes "fs_readFile file = Inr textContent"
    and "0 \<le> currentRows"
    and "int (length (data (parseCSV textContent
            \<lparr>opt_delimiter = Some (detectDelimiter (getSample textContent 10) (csv_delimiter config)),
             opt_maxRows = Some (currentRows + 5000), opt_skipEmptyLines = None\<rparr>))) \<le> currentRows"
  shows "loadMoreRows file config currentRows = MoreRowsMessage [] False"
  using assms
  by (simp add: loadMoreRows_def batchSize_def Let_def parseCSV_totalRows slice_from_nonneg)

theorem loadMoreRows_past_end_witness:
  "loadMoreRows \<lparr>fs_stat = Inr 5, fs_readFile = Inr ''h\<newline>1\<newline>2'', fs_baseName = ''t.csv''\<rparr>
     \<lparr>csv_delimiter = ''auto'', csv_previewRowCount = 10000\<rparr> 2 = MoreRowsMessage [] False"
proof -
  let ?file = "\<lparr>fs_stat = Inr 5, fs_readFile = Inr ''h\<newline>1\<newline>2'', fs_baseName = ''t.csv''\<rparr>"
  let ?config = "\<lparr>csv_delimiter = ''auto'', csv_previewRowCount = 10000\<rparr>"
  have d: "detectDelimiter (getSample ''h\<newline>1\<newline>2'' 10) ''auto'' = '',''"
    by (simp add: detect_eval)
  have rows: "data (parseCSV ''h\<newline>1\<newline>2''
            \<lparr>opt_delimiter = Some '','', opt_maxRows = Some 5002, opt_skipEmptyLines = None\<rparr>)
          = [[''1''], [''2'']]"
    by (simp add: parse_eval)
  show ?thesis
    by (rule loadMoreRows_past_end [of ?file "''h\<newline>1\<newline>2''" 2 ?config]) (simp_all add: d rows)
qed

section \<open>Delimiter detection\<close>

text \<open>
  C4, as stated, fails: a candidate whose count is the same and not zero on every line is
  not always returned. On \<open>a,b;c;d\<close> / \<open>1,2;3;4\<close> the comma occurs once on both lines, and
  the semicolon, with the higher score, is returned.
\<close>

theorem detectDelimiter_consistent_counterexample:
  "counts_of (sample_lines ''a,b;c;d\<newline>1,2;3;4'') '','' = [1, 1]
   \<and> detectDelimiter ''a,b;c;d\<newline>1,2;3;4'' ''auto'' = '';''
   \<and> detectDelimiter ''a,b;c;d\<newline>1,2;3;4'' ''auto'' \<noteq> '',''"
  by (simp add: detect_eval)

text \<open>
  C4, amended. The lines are the ones that are not blank among the first five lines of the
  sample. When there are two or more, each of comma, semicolon, tab and pipe gets the score
  the specification words: \<open>C \<times> 100\<close> when its count outside quotes is the same \<open>C > 0\<close> on
  every line, and the count of the first line \<open>\<times> 10\<close> otherwise. The candidate returned has
  the highest score, and a higher score than every candidate before it in that order; so a
  candidate whose score is higher than every other one is returned, and comma is returned
  when all scores are 0.
\<close>

theorem detectDelimiter_auto:
  assumes "2 \<le> length (sample_lines sample)"
  shows "(let lines = sample_lines sample;
              score = (\<lambda>j. spec_score (counts_of lines (delimiters ! j)));
              result = detectDelimiter sample ''auto''
          in scores_of lines = map (\<lambda>d. (d, spec_score (counts_of lines d))) delimiters
             \<and> (\<exists>i<4. result = delimiters ! i
                    \<and> (\<forall>j<4. score j \<le> score i) \<and> (\<forall>j<i. score j < score i))
             \<and> (\<forall>i<4. (\<forall>j<4. j \<noteq> i \<longrightarrow> score j < score i) \<longrightarrow> result = delimiters ! i)
             \<and> ((\<forall>j<4. score j = 0) \<longrightarrow> result = '',''))"
proof -
  let ?lines = "sample_lines sample"
  let ?score = "\<lambda>j. spec_score (counts_of ?lines (delimiters ! j))"
  let ?result = "detectDelimiter sample ''auto''"
  from best_candidate [OF assms] obtain i where i: "i < 4" "?result = delimiters ! i"
      "\<forall>j<4. ?score j \<le> ?score i" "\<forall>j<i. ?score j < ?score i"
    by blast
  have highest: "?result = delimiters ! i'" if "i' < 4" "\<forall>j<4. j \<noteq> i' \<longrightarrow> ?score j < ?score i'" for i'
  proof (cases "i = i'")
    case True
    then show ?thesis using i(2) by simp
  next
    case False
    then have "?score i < ?score i'" using that i(1) by blast
    moreover have "?score i' \<le> ?score i" using that(1) i(3) by blast
    ultimately show ?thesis by simp
  qed
  have zero: "?result = '',''" if "\<forall>j<4. ?score j = 0"
  proof -
    have "i = 0"
    proof (rule ccontr)
      assume "i \<noteq> 0"
      then have "?score 0 < ?score i" using i(4) by blast
      then show False using that i(1) by simp
    qed
    then show ?thesis using i(2) by (simp add: delimiters_def)
  qed
  have first: "\<exists>i<4. ?result = delimiters ! i
                    \<and> (\<forall>j<4. ?score j \<le> ?score i) \<and> (\<forall>j<i. ?score j < ?score i)"
    using i by blast
  show ?thesis
    unfolding Let_def
  proof (intro conjI)
    show "scores_of ?lines = map (\<lambda>d. (d, spec_score (counts_of ?lines d))) delimiters"
      by (rule scores_of_spec [OF assms])
    show "\<exists>i<4. ?result = delimiters ! i
                    \<and> (\<forall>j<4. ?score j \<le> ?score i) \<and> (\<forall>j<i. ?score j < ?score i)"
      by (rule first)
    show "\<forall>i<4. (\<forall>j<4. j \<noteq> i \<longrightarrow> ?score j < ?score i) \<longrightarrow> ?result = delimiters ! i"
      using highest by blast
    show "(\<forall>j<4. ?score j = 0) \<longrightarrow> ?result = '',''"
      using zero by blast
  qed
qed

theorem detectDelimiter_auto_witness:
  "2 \<le> length (sample_lines ''a,b,c\<newline>1,2,3'')
   \<and> spec_score (counts_of (sample_lines ''a,b,c\<newline>1,2,3'') '','') = 200
   \<and> detectDelimiter ''a,b,c\<newline>1,2,3'' ''auto'' = '',''"
proof -
  let ?lines = "sample_lines ''a,b,c\<newline>1,2,3''"
  have lines: "?lines = [''a,b,c'', ''1,2,3'']"
    by (simp add: sample_lines_def trim_def is_space_def)
  have len: "2 \<le> length ?lines" by (simp add: lines)
  have s0: "spec_score (counts_of ?lines (delimiters ! 0)) = 200"
    and s1: "spec_score (counts_of ?lines (delimiters ! 1)) = 0"
    and s2: "spec_score (counts_of ?lines (delimiters ! 2)) = 0"
    and s3: "spec_score (counts_of ?lines (delimiters ! 3)) = 0"
    by (simp_all add: lines delimiters_def counts_of_def countDelimiterOccurrences_def spec_score_def)
  have others: "\<forall>j<4. j \<noteq> 0 \<longrightarrow> spec_score (counts_of ?lines (delimiters ! j))
                          < spec_score (counts_of ?lines (delimiters ! 0))"
    unfolding less_4_cases using s0 s1 s2 s3 by auto
  have "\<forall>i<4. (\<forall>j<4. j \<noteq> i \<longrightarrow> spec_score (counts_of ?lines (delimiters ! j))
                          < spec_score (counts_of ?lines (delimiters ! i)))
       \<longrightarrow> detectDelimiter ''a,b,c\<newline>1,2,3'' ''auto'' = delimiters ! i"
    using detectDelimiter_auto [OF len] unfolding Let_def by (elim conjE)
  then have "(0::nat) < 4 \<longrightarrow> (\<forall>j<4. j \<noteq> 0 \<longrightarrow> spec_score (counts_of ?lines (delimiters ! j))
                          < spec_score (counts_of ?lines (delimiters ! 0)))
       \<longrightarrow> detectDelimiter ''a,b,c\<newline>1,2,3'' ''auto'' = delimiters ! 0"
    by (rule spec)
  then have "detectDelimiter ''a,b,c\<newline>1,2,3'' ''auto'' = delimiters ! 0"
    using others by simp
  then have r: "detectDelimiter ''a,b,c\<newline>1,2,3'' ''auto'' = '',''"
    by (simp add: delimiters_def)
  have "spec_score (counts_of ?lines '','') = 200"
    using s0 by (simp add: delimiters_def)
  then show ?thesis using len r by blast
qed

text \<open>
  The first five lines are taken before the blank ones are dropped: after five blank lines
  no line is left to analyse and the comma is returned, whatever follows.
\<close>

lemma detectDelimiter_slices_before_filter:
  "take 5 (filter (\<lambda>line. trim line \<noteq> [])
      (split_on LF ''\<newline>\<newline>\<newline>\<newline>\<newline>a;b\<newline>1;2'')) = [''a;b'', ''1;2'']
   \<and> sample_lines ''\<newline>\<newline>\<newline>\<newline>\<newline>a;b\<newline>1;2'' = []
   \<and> detectDelimiter ''\<newline>\<newline>\<newline>\<newline>\<newline>a;b\<newline>1;2'' ''auto'' = '',''"
  by (simp add: detect_eval)

section \<open>The row count estimate\<close>

text \<open>
  C8, as stated, fails: the source computes \<open>(length / sampleSize) * newlines\<close> in double
  arithmetic, and the rounded quotient times the count can fall just below the exact
  product. A text of 10050 characters with 200 line feeds among its first 10000 gives 200,
  while \<open>floor (10050 / 10000 \<times> 200) = 201\<close>.
\<close>

theorem estimateRowCount_rounding_counterexample:
  "(let content = replicate 200 LF @ replicate 9850 (CHR ''a'');
        sample = take (min (length content) 10000) content;
        newlines = length (filter (\<lambda>c. c = LF) sample)
    in length content = 10050 \<and> length sample = 10000 \<and> newlines = 200
       \<and> estimateRowCount content = 200
       \<and> max 1 (nat \<lfloor>real (length content) / real (length sample) * real newlines\<rfloor>) = 201)"
proof -
  let ?content = "replicate 200 LF @ replicate 9850 (CHR ''a'')"
  have len: "length ?content = 10050" by simp
  have sample: "length (take (min (length ?content) 10000) ?content) = 10000" by simp
  have count: "length (filter (\<lambda>c. c = LF) (take (min (length ?content) 10000) ?content)) = 200"
    by (simp add: min_def)
  have est: "estimateRowCount ?content = 200"
    unfolding estimateRowCount_def Let_def count len by (simp add: estimate_10050)
  have exact: "max 1 (nat \<lfloor>real (10050::nat) / real (10000::nat) * real (200::nat)\<rfloor>) = 201"
    unfolding exact_floor by simp
  show ?thesis
    unfolding Let_def count len sample est using exact by simp
qed

text \<open>
  C8, amended. \<open>estimateRowCount\<close> returns at least 1; it returns 1 when the sample, the first
  \<open>min (length, 10000)\<close> characters, has no line feed; otherwise it returns the maximum of 1
  and the floor of the product as the doubles give it. For a text of fewer than \<open>2 ^ 32\<close>
  characters that value is \<open>max 1 (floor (length / sampleSize \<times> newlines))\<close> or one less, and it
  is exactly that maximum when the sample length divides the text length (so for every
  text of at most 10000 characters, and in the example 100000 / 10000 \<times> 9 = 90).
\<close>

theorem estimateRowCount_value:
  "(let sampleSize = min (length content) 10000;
        newlines = length (filter (\<lambda>c. c = LF) (take sampleSize content));
        exact = nat \<lfloor>real (length content) / real sampleSize * real newlines\<rfloor>
    in 1 \<le> estimateRowCount content
       \<and> (newlines = 0 \<longrightarrow> estimateRowCount content = 1)
       \<and> (newlines \<noteq> 0 \<longrightarrow>
            estimateRowCount content
              = max 1 (double_floor (double_mul (double_div (length content) sampleSize) newlines)))
       \<and> (newlines \<noteq> 0 \<and> length content < 2 ^ 32 \<longrightarrow>
            max 1 (exact - 1) \<le> estimateRowCount content
            \<and> estimateRowCount content \<le> max 1 exact)
       \<and> (newlines \<noteq> 0 \<and> length content < 2 ^ 32 \<and> sampleSize dvd length content \<longrightarrow>
            estimateRowCount content = max 1 exact))"
proof -
  define L where "L = length content"
  define S where "S = min L 10000"
  define k where "k = length (filter (\<lambda>c. c = LF) (take S content))"
  define est where "est = double_floor (double_mul (double_div L S) k)"
  have unfolded: "estimateRowCount content = (if k = 0 then 1 else max 1 est)"
    by (simp add: estimateRowCount_def Let_def L_def S_def k_def est_def)
  have kS: "k \<le> S"
    unfolding k_def using length_filter_le [of "\<lambda>c. c = LF" "take S content"]
    by (simp add: S_def L_def)
  have bounds: "(L * k) div S - 1 \<le> est \<and> est \<le> (L * k) div S" if "k \<noteq> 0" "L < 2 ^ 32"
  proof -
    have k: "0 < k" using that by simp
    then have S: "0 < S" using kS by simp
    then have L: "0 < L" by (simp add: S_def)
    have fl: "int (floorlog 2 L) - int (floorlog 2 S) \<le> 18"
      unfolding S_def using L that(2) by (rule floorlog_sample)
    have "S \<le> L" "S \<le> 10000" by (simp_all add: S_def)
    from estimate_bounds [OF S this k kS that(2) fl] show ?thesis by (simp add: est_def)
  qed
  have exact: "est = (L * k) div S" if "k \<noteq> 0" "L < 2 ^ 32" "S dvd L"
  proof -
    have k: "0 < k" using that by simp
    then have S: "0 < S" using kS by simp
    then have L: "0 < L" by (simp add: S_def)
    have fl: "int (floorlog 2 L) - int (floorlog 2 S) \<le> 18"
      unfolding S_def using L that(2) by (rule floorlog_sample)
    have "S \<le> L" "S \<le> 10000" by (simp_all add: S_def)
    from estimate_exact [OF S this k kS that(2) fl that(3)] show ?thesis by (simp add: est_def)
  qed
  have "1 \<le> estimateRowCount content" by (simp add: unfolded)
  moreover have "k = 0 \<longrightarrow> estimateRowCount content = 1" by (simp add: unfolded)
  moreover have "k \<noteq> 0 \<longrightarrow> estimateRowCount content = max 1 est" by (simp add: unfolded)
  moreover have "k \<noteq> 0 \<and> L < 2 ^ 32 \<longrightarrow>
      max 1 ((L * k) div S - 1) \<le> estimateRowCount content
      \<and> estimateRowCount content \<le> max 1 ((L * k) div S)"
    using bounds by (auto simp add: unfolded)
  moreover have "k \<noteq> 0 \<and> L < 2 ^ 32 \<and> S dvd L \<longrightarrow>
      estimateRowCount content = max 1 ((L * k) div S)"
    using exact by (simp add: unfolded)
  ultimately show ?thesis
    unfolding Let_def exact_floor L_def [symmetric] S_def [symmetric] k_def [symmetric]
      est_def [symmetric]
    by blast
qed

theorem estimateRowCount_value_witness:
  "estimateRowCount (replicate 9 LF @ replicate 99991 (CHR ''a'')) = 90
   \<and> estimateRowCount ''no line break'' = 1
   \<and> 200 \<le> estimateRowCount (replicate 200 LF @ replicate 9850 (CHR ''a''))
   \<and> estimateRowCount (replicate 200 LF @ replicate 9850 (CHR ''a'')) \<le> 201"
proof -
  let ?big = "replicate 9 LF @ replicate 99991 (CHR ''a'')"
  let ?odd = "replicate 200 LF @ replicate 9850 (CHR ''a'')"
  have big: "length ?big = 100000"
    "length (filter (\<lambda>c. c = LF) (take (min (length ?big) 10000) ?big)) = 9"
    by (simp_all add: min_def)
  have odd: "length ?odd = 10050"
    "length (filter (\<lambda>c. c = LF) (take (min (length ?odd) 10000) ?odd)) = 200"
    by (simp_all add: min_def)
  have e1: "nat \<lfloor>real (100000::nat) / real (10000::nat) * real (9::nat)\<rfloor> = 90"
    unfolding exact_floor by simp
  have e2: "nat \<lfloor>real (10050::nat) / real (10000::nat) * real (200::nat)\<rfloor> = 201"
    unfolding exact_floor by simp
  have a: "estimateRowCount ?big = 90"
    using estimateRowCount_value [of ?big] unfolding Let_def big e1 by simp
  have b: "estimateRowCount ''no line break'' = 1"
    using estimateRowCount_value [of "''no line break''"] unfolding Let_def by simp
  have c: "200 \<le> estimateRowCount ?odd \<and> estimateRowCount ?odd \<le> 201"
    using estimateRowCount_value [of ?odd] unfolding Let_def odd e2 by auto
  from a b c show ?thesis by blast
qed

section \<open>Validation\<close>

text \<open>
  C6. For a table of fewer than \<open>2 ^ 32\<close> rows (the bound of a JavaScript array),
  \<open>validateCSV\<close> is invalid with the message about missing headers when there is no
  header; otherwise invalid with the message about missing data rows when there is no
  row; otherwise invalid with the message about inconsistent column counts exactly when
  ten times the number of rows whose length differs from the number of headers exceeds
  the number of rows; otherwise valid. The comparison of the source, against the double
  \<open>rows * 0.1\<close>, agrees with this exact one.
\<close>

theorem validateCSV_outcome:
  assumes "length (data parseResult) < 2 ^ 32"
  shows "validateCSV parseResult =
     (if headers parseResult = [] then
        \<lparr>valid = False, message = Some ''CSV file appears to be empty or has no headers''\<rparr>
      else if data parseResult = [] then
        \<lparr>valid = False, message = Some ''CSV file has headers but no data rows''\<rparr>
      else if length (data parseResult)
              < 10 * length (filter (\<lambda>row. length row \<noteq> length (headers parseResult))
                                    (data parseResult)) then
        \<lparr>valid = False,
         message = Some (''Many rows have inconsistent column counts. Expected ''
                         @ string_of_nat (length (headers parseResult)) @ '' columns.'')\<rparr>
      else \<lparr>valid = True, message = None\<rparr>)"
proof (cases "data parseResult = []")
  case True
  then show ?thesis by (simp add: validateCSV_def)
next
  case False
  then have "0 < length (data parseResult)" by simp
  from exceeds_tenth [OF this assms] False show ?thesis
    by (simp add: validateCSV_def Let_def)
qed

theorem validateCSV_outcome_witness:
  "validateCSV \<lparr>data = replicate 17 [''1'', ''2''] @ replicate 3 [''1''], headers = [''a'', ''b''],
                 totalRows = 20, errors = []\<rparr>
     = \<lparr>valid = False,
        message = Some ''Many rows have inconsistent column counts. Expected 2 columns.''\<rparr>
   \<and> validateCSV \<lparr>data = replicate 19 [''1'', ''2''] @ replicate 1 [''1''], headers = [''a'', ''b''],
                 totalRows = 20, errors = []\<rparr>
     = \<lparr>valid = True, message = None\<rparr>"
proof -
  let ?three = "\<lparr>data = replicate 17 [''1'', ''2''] @ replicate 3 [''1''], headers = [''a'', ''b''],
                 totalRows = 20, errors = []\<rparr>"
  let ?one = "\<lparr>data = replicate 19 [''1'', ''2''] @ replicate 1 [''1''], headers = [''a'', ''b''],
                 totalRows = 20, errors = []\<rparr>"
  have a: "length (data ?three) < 2 ^ 32" by simp
  have b: "length (data ?one) < 2 ^ 32" by simp
  show ?thesis
    using validateCSV_outcome [OF a] validateCSV_outcome [OF b]
    by (simp add: string_of_nat_2)
qed

section \<open>The initial load\<close>

text \<open>
  C7. For a file within the size limit that can be read, \<open>loadCsvFile\<close> posts an error
  message, which carries a text and no table, exactly when the text is empty or white
  space only or the validator rejects the parsed table: \<open>File is empty\<close> in the first case,
  the reason of the validator in the second. Otherwise it posts the table.
\<close>

theorem loadCsvFile_error_iff:
  assumes "fs_stat file = Inr bytes" and "bytes \<le> maxFileSize"
    and "fs_readFile file = Inr textContent"
  shows "(let parseResult = parseCSV textContent
            \<lparr>opt_delimiter = Some (detectDelimiter (getSample textContent 10) (csv_delimiter config)),
             opt_maxRows = Some (csv_previewRowCount config), opt_skipEmptyLines = None\<rparr>;
           validation = validateCSV parseResult
       in (list_all is_space textContent \<longrightarrow>
             loadCsvFile file config = ErrorMessage ''File is empty'')
        \<and> (\<not> list_all is_space textContent \<and> \<not> valid validation \<longrightarrow>
             (\<exists>reason. message validation = Some reason
                       \<and> loadCsvFile file config = ErrorMessage reason))
        \<and> (\<not> list_all is_space textContent \<and> valid validation \<longrightarrow>
             (\<exists>table. loadCsvFile file config = CsvDataMessage table
                      \<and> msg_headers table = headers parseResult
                      \<and> msg_rows table = data parseResult
                      \<and> msg_totalRows table = totalRows parseResult))
        \<and> ((\<exists>msg. loadCsvFile file config = ErrorMessage msg)
             \<longleftrightarrow> list_all is_space textContent \<or> \<not> valid validation))"
proof -
  let ?parseResult = "parseCSV textContent
            \<lparr>opt_delimiter = Some (detectDelimiter (getSample textContent 10) (csv_delimiter config)),
             opt_maxRows = Some (csv_previewRowCount config), opt_skipEmptyLines = None\<rparr>"
  let ?validation = "validateCSV ?parseResult"
  have blank: "(textContent = [] \<or> length (trim textContent) = 0) \<longleftrightarrow> list_all is_space textContent"
    using trim_empty_iff [of textContent] by auto
  show ?thesis
  proof (cases "list_all is_space textContent")
    case True
    then have "loadCsvFile file config = ErrorMessage ''File is empty''"
      using assms blank by (simp add: loadCsvFile_def showError_def)
    then show ?thesis using True by (simp add: Let_def)
  next
    case nonblank: False
    show ?thesis
    proof (cases "valid ?validation")
      case True
      then have "\<exists>table. loadCsvFile file config = CsvDataMessage table
                      \<and> msg_headers table = headers ?parseResult
                      \<and> msg_rows table = data ?parseResult
                      \<and> msg_totalRows table = totalRows ?parseResult"
        using assms blank nonblank by (simp add: loadCsvFile_def Let_def)
      then show ?thesis using True nonblank by (auto simp add: Let_def)
    next
      case False
      from validateCSV_invalid_message [OF this] obtain reason
        where r: "message ?validation = Some reason" "reason \<noteq> []" by blast
      have "loadCsvFile file config = ErrorMessage reason"
        using assms blank nonblank False r by (simp add: loadCsvFile_def Let_def showError_def)
      then show ?thesis using False nonblank r by (simp add: Let_def)
    qed
  qed
qed

theorem loadCsvFile_error_iff_witness:
  "loadCsvFile \<lparr>fs_stat = Inr 3, fs_readFile = Inr ''a,b'', fs_baseName = ''t.csv''\<rparr>
      \<lparr>csv_delimiter = ''auto'', csv_previewRowCount = 10000\<rparr>
    = ErrorMessage ''CSV file has headers but no data rows''
   \<and> (\<exists>table. loadCsvFile \<lparr>fs_stat = Inr 7, fs_readFile = Inr ''a,b\<newline>1,2'', fs_baseName = ''t.csv''\<rparr>
      \<lparr>csv_delimiter = ''auto'', csv_previewRowCount = 10000\<rparr> = CsvDataMessage table
      \<and> msg_headers table = [''a'', ''b''] \<and> msg_rows table = [[''1'', ''2'']])"
proof -
  let ?config = "\<lparr>csv_delimiter = ''auto'', csv_previewRowCount = 10000\<rparr>"
  let ?bad = "\<lparr>fs_stat = Inr 3, fs_readFile = Inr ''a,b'', fs_baseName = ''t.csv''\<rparr>"
  let ?good = "\<lparr>fs_stat = Inr 7, fs_readFile = Inr ''a,b\<newline>1,2'', fs_baseName = ''t.csv''\<rparr>"
  have d1: "detectDelimiter (getSample ''a,b'' 10) ''auto'' = '',''"
    by (simp add: detect_eval)
  have d2: "detectDelimiter (getSample ''a,b\<newline>1,2'' 10) ''auto'' = '',''"
    by (simp add: detect_eval)
  have p1: "parseCSV ''a,b'' \<lparr>opt_delimiter = Some '','', opt_maxRows = Some 10000, opt_skipEmptyLines = None\<rparr>
      = \<lparr>data = [], headers = [''a'', ''b''], totalRows = 0, errors = []\<rparr>"
    by (simp add: parse_eval)
  have p2: "parseCSV ''a,b\<newline>1,2'' \<lparr>opt_delimiter = Some '','', opt_maxRows = Some 10000, opt_skipEmptyLines = None\<rparr>
      = \<lparr>data = [[''1'', ''2'']], headers = [''a'', ''b''], totalRows = 1, errors = []\<rparr>"
    by (simp add: parse_eval)
  have v1: "validateCSV (parseCSV ''a,b'' \<lparr>opt_delimiter = Some '','', opt_maxRows = Some 10000, opt_skipEmptyLines = None\<rparr>)
      = \<lparr>valid = False, message = Some ''CSV file has headers but no data rows''\<rparr>"
    unfolding p1 by (simp add: validateCSV_def)
  have v2: "valid (validateCSV (parseCSV ''a,b\<newline>1,2'' \<lparr>opt_delimiter = Some '','', opt_maxRows = Some 10000, opt_skipEmptyLines = None\<rparr>))"
    unfolding p2
    using validateCSV_outcome [of "\<lparr>data = [[''1'', ''2'']], headers = [''a'', ''b''], totalRows = 1, errors = []\<rparr>"]
    by simp
  have h2: "headers (parseCSV ''a,b\<newline>1,2'' \<lparr>opt_delimiter = Some '','', opt_maxRows = Some 10000, opt_skipEmptyLines = None\<rparr>) = [''a'', ''b'']"
    and r2: "data (parseCSV ''a,b\<newline>1,2'' \<lparr>opt_delimiter = Some '','', opt_maxRows = Some 10000, opt_skipEmptyLines = None\<rparr>) = [[''1'', ''2'']]"
    unfolding p2 by simp_all
  have size: "3 \<le> maxFileSize" "7 \<le> maxFileSize" by (simp_all add: maxFileSize_def)
  have "fs_stat ?bad = Inr 3" "fs_readFile ?bad = Inr ''a,b''" by simp_all
  from loadCsvFile_error_iff [OF this(1) size(1) this(2), of ?config]
  have bad: "loadCsvFile ?bad ?config = ErrorMessage ''CSV file has headers but no data rows''"
    by (simp add: Let_def d1 v1 is_space_def)
  have "fs_stat ?good = Inr 7" "fs_readFile ?good = Inr ''a,b\<newline>1,2''" by simp_all
  from loadCsvFile_error_iff [OF this(1) size(2) this(2), of ?config]
  have good: "\<exists>table. loadCsvFile ?good ?config = CsvDataMessage table
      \<and> msg_headers table = [''a'', ''b''] \<and> msg_rows table = [[''1'', ''2'']]"
    by (simp add: Let_def d2 v2 h2 r2 is_space_def) blast
  from bad good show ?thesis by blast
qed

end
